theory Spec2Isabelle
  imports Complex_Main "HOL-Library.AList" "HOL-Library.Sublist"
begin

section \<open>Text, characters and numbers\<close>

text \<open>
  The response text of the completion endpoint is a Python \<open>str\<close>. It is modelled as a
  \<^typ>\<open>string\<close>, every character being the code point of the same number, so the model
  covers the code points below 256. Python floats are read as the exact real number that
  the decimal numeral denotes; rounding to a double is left out.
\<close>

definition newline :: char where
  "newline = CHR 0x0A"

definition is_space :: "char \<Rightarrow> bool" where
  \<comment> \<open>\<open>\s\<close> of a Unicode pattern, on the code points below 256\<close>
  "is_space c = (let n = (of_char c :: nat) in
     (9 \<le> n \<and> n \<le> 13) \<or> (28 \<le> n \<and> n \<le> 32) \<or> n = 133 \<or> n = 160)"

definition is_digit :: "char \<Rightarrow> bool" where
  \<comment> \<open>\<open>\d\<close>: the only decimal digits below 256 are \<open>0\<close> to \<open>9\<close>\<close>
  "is_digit c = (let n = (of_char c :: nat) in 48 \<le> n \<and> n \<le> 57)"

definition py_lower :: "char \<Rightarrow> char" where
  \<comment> \<open>\<open>str.lower\<close> on one code point below 256\<close>
  "py_lower c = (let n = (of_char c :: nat) in
     if (65 \<le> n \<and> n \<le> 90) \<or> (192 \<le> n \<and> n \<le> 222 \<and> n \<noteq> 215)
     then char_of (n + 32) else c)"

definition lower :: "string \<Rightarrow> string" where
  "lower s = map py_lower s"

fun replace_amp :: "string \<Rightarrow> string \<Rightarrow> string" where
  \<comment> \<open>\<open>s.replace(" & ", new)\<close>: left to right, occurrences do not overlap\<close>
  "replace_amp new (a # b # c # rest) =
     (if a = CHR 0x20 \<and> b = CHR ''&'' \<and> c = CHR 0x20
      then new @ replace_amp new rest
      else a # replace_amp new (b # c # rest))"
| "replace_amp new s = s"

definition digit_val :: "char \<Rightarrow> nat" where
  "digit_val c = of_char c - 48"

definition digits_val :: "string \<Rightarrow> nat" where
  "digits_val ds = foldl (\<lambda>a c. 10 * a + digit_val c) 0 ds"

definition py_float :: "string \<Rightarrow> real option" where
  \<comment> \<open>\<open>float(s)\<close> on the numerals \<open>\d+(\.\d+)?\<close>; \<open>None\<close> stands for \<open>ValueError\<close>\<close>
  "py_float s =
     (let ip = takeWhile is_digit s; rest = dropWhile is_digit s in
      if ip = [] then None
      else (case rest of
              [] \<Rightarrow> Some (real (digits_val ip))
            | c # fp \<Rightarrow>
                if c = CHR ''.'' \<and> fp \<noteq> [] \<and> list_all is_digit fp
                then Some (real (digits_val ip) + real (digits_val fp) / 10 ^ length fp)
                else None))"

section \<open>Regular expressions with the backtracking order of \<open>re\<close>\<close>

text \<open>
  Only the constructs that the patterns of \<open>extract_scores\<close> use. Every pattern is compiled
  with \<open>re.IGNORECASE\<close>, so a literal compares lower-cased characters; the dot is used under
  \<open>re.DOTALL\<close> only. A matcher state is the rest of the input and the text of group 1.
  \<open>rx_run\<close> lists the states after a match in the order in which backtracking tries them;
  the match \<open>re\<close> reports is the first one.
\<close>

datatype cls = Space | Digit | AnyChar

datatype rx =
    Lit string
  | Star cls
  | Plus cls
  | LazyStar cls
  | Opt rx
  | Seq rx rx
  | Alt rx rx
  | Group rx
  | EndAnchor

type_synonym mstate = "string \<times> string option"

fun in_cls :: "cls \<Rightarrow> char \<Rightarrow> bool" where
  "in_cls Space c = is_space c"
| "in_cls Digit c = is_digit c"
| "in_cls AnyChar c = True"

fun ci_prefix :: "string \<Rightarrow> string \<Rightarrow> bool" where
  "ci_prefix [] s = True"
| "ci_prefix (p # ps) [] = False"
| "ci_prefix (p # ps) (c # cs) = (py_lower p = py_lower c \<and> ci_prefix ps cs)"

fun star_run :: "cls \<Rightarrow> string \<Rightarrow> string list" where
  \<comment> \<open>greedy: the longest run first\<close>
  "star_run k [] = [[]]"
| "star_run k (c # cs) = (if in_cls k c then star_run k cs @ [c # cs] else [c # cs])"

fun lazy_run :: "cls \<Rightarrow> string \<Rightarrow> string list" where
  \<comment> \<open>lazy: the shortest run first\<close>
  "lazy_run k [] = [[]]"
| "lazy_run k (c # cs) = (c # cs) # (if in_cls k c then lazy_run k cs else [])"

fun rx_run :: "rx \<Rightarrow> mstate \<Rightarrow> mstate list" where
  "rx_run (Lit p) (s, g) = (if ci_prefix p s then [(drop (length p) s, g)] else [])"
| "rx_run (Star k) (s, g) = map (\<lambda>s'. (s', g)) (star_run k s)"
| "rx_run (Plus k) (s, g) =
     (case s of [] \<Rightarrow> []
      | c # cs \<Rightarrow> if in_cls k c then map (\<lambda>s'. (s', g)) (star_run k cs) else [])"
| "rx_run (LazyStar k) (s, g) = map (\<lambda>s'. (s', g)) (lazy_run k s)"
| "rx_run (Opt r) st = rx_run r st @ [st]"
| "rx_run (Seq a b) st = concat (map (rx_run b) (rx_run a st))"
| "rx_run (Alt a b) st = rx_run a st @ rx_run b st"
| "rx_run (Group r) (s, g) =
     map (\<lambda>(s', g'). (s', Some (take (length s - length s') s))) (rx_run r (s, g))"
| "rx_run EndAnchor (s, g) = (if s = [] \<or> s = [newline] then [(s, g)] else [])"

fun search :: "rx \<Rightarrow> string \<Rightarrow> mstate option" where
  \<comment> \<open>\<open>re.search\<close>: the first start position that has a match, and its first match\<close>
  "search r [] = (case rx_run r ([], None) of [] \<Rightarrow> None | m # _ \<Rightarrow> Some m)"
| "search r (c # cs) =
     (case rx_run r (c # cs, None) of [] \<Rightarrow> search r cs | m # _ \<Rightarrow> Some m)"

section \<open>The patterns of \<open>extract_scores\<close>\<close>

definition number_rx :: rx where
  \<comment> \<open>\<open>\d+(?:\.\d+)?\<close>\<close>
  "number_rx = Seq (Plus Digit) (Opt (Seq (Lit ''.'') (Plus Digit)))"

definition scores_section_rx :: rx where
  \<comment> \<open>\<open>(?:SCORES?|RUBRIC SCORES?|EVALUATION)\s*:?\s*\n(.*?)(?:WEIGHTED TOTAL|OVERALL|TOTAL|$)\<close>\<close>
  "scores_section_rx =
     Seq (Alt (Seq (Lit ''SCORE'') (Opt (Lit ''S'')))
           (Alt (Seq (Lit ''RUBRIC SCORE'') (Opt (Lit ''S''))) (Lit ''EVALUATION'')))
      (Seq (Star Space) (Seq (Opt (Lit '':'')) (Seq (Star Space) (Seq (Lit [newline])
        (Seq (Group (LazyStar AnyChar))
          (Alt (Lit ''WEIGHTED TOTAL'') (Alt (Lit ''OVERALL'') (Alt (Lit ''TOTAL'') EndAnchor))))))))"

definition colon_rx :: "string \<Rightarrow> rx" where
  \<comment> \<open>\<open>{key}\s*:?\s*(\d+(?:\.\d+)?)\<close>\<close>
  "colon_rx kv = Seq (Lit kv) (Seq (Star Space) (Seq (Opt (Lit '':''))
                   (Seq (Star Space) (Group number_rx))))"

definition sep_rx :: "string \<Rightarrow> string \<Rightarrow> rx" where
  \<comment> \<open>\<open>{key}\s*-\s*(\d+(?:\.\d+)?)\<close>, and the same with \<open>=\<close>\<close>
  "sep_rx sep kv = Seq (Lit kv) (Seq (Star Space) (Seq (Lit sep)
                     (Seq (Star Space) (Group number_rx))))"

definition leading_rx :: "string \<Rightarrow> rx" where
  \<comment> \<open>\<open>(\d+(?:\.\d+)?)\s*:?\s*{key}\<close>\<close>
  "leading_rx kv = Seq (Group number_rx) (Seq (Star Space) (Seq (Opt (Lit '':''))
                     (Seq (Star Space) (Lit kv))))"

definition patterns :: "string \<Rightarrow> rx list" where
  "patterns kv = [colon_rx kv, sep_rx ''-'' kv, sep_rx ''='' kv, leading_rx kv]"

definition key_variations :: "string \<Rightarrow> string list" where
  "key_variations key = [key, lower key, replace_amp '' and '' key, replace_amp '' '' key]"

definition total_patterns :: "rx list" where
  "total_patterns =
     [colon_rx ''WEIGHTED TOTAL'', colon_rx ''OVERALL SCORE'', colon_rx ''TOTAL SCORE'',
      colon_rx ''FINAL SCORE'', colon_rx ''WEIGHTED'']"

section \<open>\<open>extract_scores\<close>\<close>

datatype py_exc = TypeError | APIError | OSError | KeyboardInterrupt

type_synonym rubric = "(string \<times> real) list"
type_synonym scores = "(string \<times> real) list"

definition get :: "scores \<Rightarrow> string \<Rightarrow> real" where
  \<comment> \<open>\<open>scores.get(k, 0)\<close>\<close>
  "get sc k = (case map_of sc k of None \<Rightarrow> 0 | Some v \<Rightarrow> v)"

definition score_text :: "string \<Rightarrow> py_exc + string" where
  "score_text response =
     (case search scores_section_rx response of
        None \<Rightarrow> Inr response
      | Some (_, None) \<Rightarrow> Inl TypeError
      | Some (_, Some body) \<Rightarrow> Inr body)"

fun for_patterns :: "string \<Rightarrow> rx list \<Rightarrow> string \<Rightarrow> scores \<Rightarrow> py_exc + scores" where
  \<comment> \<open>the loop over \<open>patterns\<close>; \<open>float(None)\<close> would be an uncaught \<open>TypeError\<close>\<close>
  "for_patterns key [] text sc = Inr sc"
| "for_patterns key (p # ps) text sc =
     (case search p text of
        None \<Rightarrow> for_patterns key ps text sc
      | Some (_, None) \<Rightarrow> Inl TypeError
      | Some (_, Some g) \<Rightarrow>
          (case py_float g of
             None \<Rightarrow> for_patterns key ps text sc
           | Some val \<Rightarrow>
               if 0 \<le> val \<and> val \<le> 100 then Inr (AList.update key val sc)
               else for_patterns key ps text sc))"

fun for_variations :: "string \<Rightarrow> string list \<Rightarrow> string \<Rightarrow> scores \<Rightarrow> py_exc + scores" where
  "for_variations key [] text sc = Inr sc"
| "for_variations key (kv # kvs) text sc =
     (case for_patterns key (patterns kv) text sc of
        Inl e \<Rightarrow> Inl e
      | Inr sc' \<Rightarrow>
          if map_of sc' key \<noteq> None then Inr sc'
          else for_variations key kvs text sc')"

fun for_keys :: "string list \<Rightarrow> string \<Rightarrow> scores \<Rightarrow> py_exc + scores" where
  "for_keys [] text sc = Inr sc"
| "for_keys (key # keys) text sc =
     (case for_variations key (key_variations key) text sc of
        Inl e \<Rightarrow> Inl e
      | Inr sc' \<Rightarrow> for_keys keys text sc')"

fun scan_total :: "rx list \<Rightarrow> string \<Rightarrow> real \<Rightarrow> py_exc + real" where
  \<comment> \<open>the loop over \<open>total_patterns\<close>: \<open>total\<close> is assigned before the range check\<close>
  "scan_total [] response tot = Inr tot"
| "scan_total (p # ps) response tot =
     (case search p response of
        None \<Rightarrow> scan_total ps response tot
      | Some (_, None) \<Rightarrow> Inl TypeError
      | Some (_, Some g) \<Rightarrow>
          (case py_float g of
             None \<Rightarrow> scan_total ps response tot
           | Some t \<Rightarrow>
               if 0 \<le> t \<and> t \<le> 100 then Inr t
               else scan_total ps response t))"

definition calculated_total :: "rubric \<Rightarrow> scores \<Rightarrow> real" where
  "calculated_total rb sc = sum_list (map (\<lambda>(k, w). get sc k * w) rb)"

definition recompute :: "rubric \<Rightarrow> scores \<Rightarrow> real \<Rightarrow> real" where
  "recompute rb sc tot =
     (if tot = 0 \<or> length sc < length rb
      then (if calculated_total rb sc > 0 then calculated_total rb sc else tot)
      else tot)"

fun fill_missing :: "string list \<Rightarrow> scores \<Rightarrow> scores" where
  "fill_missing [] sc = sc"
| "fill_missing (key # keys) sc =
     fill_missing keys (if map_of sc key = None then AList.update key 0 sc else sc)"

definition extract_scores :: "rubric \<Rightarrow> string \<Rightarrow> py_exc + (scores \<times> real)" where
  "extract_scores rb response =
     (case score_text response of
        Inl e \<Rightarrow> Inl e
      | Inr text \<Rightarrow>
          (case for_keys (map fst rb) text [] of
             Inl e \<Rightarrow> Inl e
           | Inr sc \<Rightarrow>
               (case scan_total total_patterns response 0 of
                  Inl e \<Rightarrow> Inl e
                | Inr tot \<Rightarrow>
                    Inr (fill_missing (map fst rb) sc, recompute rb sc tot))))"

definition RUBRIC :: rubric where
  "RUBRIC =
     [(''Project Definition'', 15 / 100),
      (''Data Identification & Assessment'', 20 / 100),
      (''Mathematical Modeling'', 25 / 100),
      (''Risk Analysis'', 20 / 100),
      (''Recommendations'', 15 / 100),
      (''Communication & Clarity'', 5 / 100)]"

definition rubric_AB :: rubric where
  "rubric_AB = [(''A'', 1 / 2), (''B'', 1 / 2)]"

section \<open>The iteration loop of \<open>main\<close>\<close>

text \<open>
  The world outside \<open>main\<close> is an environment: what the completion call of pass \<open>n\<close>
  does (it returns the reply text or raises), what writing \<open>iteration_n.json\<close> does
  (\<open>None\<close> when the file is written, the exception otherwise) and the time stamp of the
  pass. \<open>except Exception\<close> catches every exception but \<open>KeyboardInterrupt\<close>, which is
  not a subclass of \<open>Exception\<close>. Printing and the pause between passes are left out.
\<close>

record env =
  chat :: "nat \<Rightarrow> py_exc + string"
  write_iteration :: "nat \<Rightarrow> py_exc option"
  strftime :: "nat \<Rightarrow> string"

definition is_Exception :: "py_exc \<Rightarrow> bool" where
  "is_Exception e = (e \<noteq> KeyboardInterrupt)"

record iteration_result =
  iteration :: nat
  script :: string
  scores :: scores
  overall_score :: real
  timestamp :: string

datatype prompt =
    InitialPrompt
  | RevisePrompt scores real scores
  | RefinePrompt real real

record loop_state =
  cur_iteration :: nat
  overall :: real
  cur_prompt :: prompt
  all_iterations :: "iteration_result list"
  saved_files :: "nat list"
  chat_calls :: "prompt list"

record summary =
  final_score :: real
  target_score :: real
  total_iterations :: nat
  achieved_target :: bool
  iterations :: "iteration_result list"

definition feedback :: "real \<Rightarrow> scores \<Rightarrow> real \<Rightarrow> prompt" where
  "feedback target sc ov =
     (let low_scores = filter (\<lambda>(k, v). v < 90) sc in
      if low_scores \<noteq> [] then RevisePrompt sc ov low_scores else RefinePrompt target ov)"

datatype 'a flow = Break 'a | Continue 'a | Propagate py_exc 'a

definition handler :: "py_exc \<Rightarrow> loop_state \<Rightarrow> loop_state flow" where
  \<comment> \<open>\<open>except Exception as e: ... break\<close>\<close>
  "handler e st = (if is_Exception e then Break st else Propagate e st)"

definition loop_body :: "rubric \<Rightarrow> real \<Rightarrow> env \<Rightarrow> loop_state \<Rightarrow> loop_state flow" where
  "loop_body rb target ev st =
     (let n = cur_iteration st;
          st0 = st\<lparr>chat_calls := chat_calls st @ [cur_prompt st]\<rparr> in
      case chat ev n of
        Inl e \<Rightarrow> handler e st0
      | Inr response \<Rightarrow>
          (case extract_scores rb response of
             Inl e \<Rightarrow> handler e st0
           | Inr (sc, ov) \<Rightarrow>
               let result = \<lparr>iteration = n, script = response, scores = sc,
                               overall_score = ov, timestamp = strftime ev n\<rparr>;
                   st1 = st0\<lparr>overall := ov, all_iterations := all_iterations st0 @ [result]\<rparr>
               in (case write_iteration ev n of
                     Some e \<Rightarrow> handler e st1
                   | None \<Rightarrow>
                       let st2 = st1\<lparr>saved_files := saved_files st1 @ [n]\<rparr> in
                       if ov \<ge> target then Break st2
                       else Continue (st2\<lparr>cur_prompt := feedback target sc ov,
                                           cur_iteration := n + 1\<rparr>))))"

function while_loop ::
  "rubric \<Rightarrow> real \<Rightarrow> nat \<Rightarrow> env \<Rightarrow> loop_state \<Rightarrow> py_exc option \<times> loop_state" where
  "while_loop rb target max_iterations ev st =
     (if overall st < target \<and> cur_iteration st \<le> max_iterations
      then (case loop_body rb target ev st of
              Break st' \<Rightarrow> (None, st')
            | Propagate e st' \<Rightarrow> (Some e, st')
            | Continue st' \<Rightarrow> while_loop rb target max_iterations ev st')
      else (None, st))"
  by pat_completeness auto
termination
  by (relation "measure (\<lambda>(rb, target, max_iterations, ev, st). Suc max_iterations - cur_iteration st)")
     (auto simp: loop_body_def handler_def Let_def
           split: sum.splits option.splits if_splits prod.splits)

declare while_loop.simps [simp del]

definition initial_state :: loop_state where
  "initial_state = \<lparr>cur_iteration = 1, overall = 0, cur_prompt = InitialPrompt,
                     all_iterations = [], saved_files = [], chat_calls = []\<rparr>"

definition make_summary :: "real \<Rightarrow> loop_state \<Rightarrow> summary" where
  "make_summary target st =
     \<lparr>final_score = overall st, target_score = target,
      total_iterations = cur_iteration st - 1,
      achieved_target = (overall st \<ge> target),
      iterations = all_iterations st\<rparr>"

definition main :: "rubric \<Rightarrow> real \<Rightarrow> nat \<Rightarrow> env \<Rightarrow> loop_state \<times> (py_exc + summary)" where
  \<comment> \<open>the final state, and the summary written or the exception that left \<open>main\<close>\<close>
  "main rb target max_iterations ev =
     (case while_loop rb target max_iterations ev initial_state of
        (Some e, st) \<Rightarrow> (st, Inl e)
      | (None, st) \<Rightarrow> (st, Inr (make_summary target st)))"

definition replies_env :: "(nat \<Rightarrow> string) \<Rightarrow> env" where
  \<comment> \<open>a fixed sequence of replies, pass \<open>n\<close> receiving \<open>f n\<close>: every call and every
     write succeeds\<close>
  "replies_env f = \<lparr>chat = (\<lambda>n. Inr (f n)), write_iteration = (\<lambda>n. None),
                    strftime = (\<lambda>n. [])\<rparr>"

definition nth_reply :: "string list \<Rightarrow> nat \<Rightarrow> string" where
  \<comment> \<open>the replies of passes 1, 2, ... taken from a list; the empty text afterwards\<close>
  "nth_reply rs n = (if 1 \<le> n \<and> n \<le> length rs then rs ! (n - 1) else [])"

definition pass_total :: "rubric \<Rightarrow> string \<Rightarrow> real" where
  \<comment> \<open>the weighted total that a pass extracts from its reply\<close>
  "pass_total rb r = (case extract_scores rb r of Inl e \<Rightarrow> 0 | Inr (sc, ov) \<Rightarrow> ov)"

definition scripted_env :: "(nat \<Rightarrow> py_exc + string) \<Rightarrow> (nat \<Rightarrow> py_exc option) \<Rightarrow> env" where
  "scripted_env c w = \<lparr>chat = c, write_iteration = w, strftime = (\<lambda>n. [])\<rparr>"

definition interrupted_env :: env where
  \<comment> \<open>pass 1 is answered with a total of 40, pass 2 is interrupted from the keyboard\<close>
  "interrupted_env =
     scripted_env (\<lambda>n. if n = 1 then Inr (''WEIGHTED TOTAL: 40'') else Inl KeyboardInterrupt)
       (\<lambda>n. None)"

definition api_failure_env :: env where
  \<comment> \<open>pass 1 is answered with a total of 40, the completion call of pass 2 fails\<close>
  "api_failure_env =
     scripted_env (\<lambda>n. if n = 1 then Inr (''WEIGHTED TOTAL: 40'') else Inl APIError)
       (\<lambda>n. None)"

definition write_failure_env :: env where
  \<comment> \<open>every pass is answered with a total of 40, writing \<open>iteration_2.json\<close> fails\<close>
  "write_failure_env =
     scripted_env (\<lambda>n. Inr (''WEIGHTED TOTAL: 40''))
       (\<lambda>n. if n = 2 then Some OSError else None)"

section \<open>The extraction rule in the words of the specification\<close>

text \<open>
  The specification describes the loops over variants and patterns as one ordered list of
  rules, of which the first that yields a number in the range 0 to 100 wins. These
  definitions follow that description; the theorems below compare them with the loops.
\<close>

definition first_match :: "rx \<Rightarrow> string \<Rightarrow> real option" where
  \<comment> \<open>the number that the first match of a pattern reports, if the pattern matches\<close>
  "first_match p text =
     (case search p text of Some (_, Some g) \<Rightarrow> py_float g | _ \<Rightarrow> None)"

fun first_accepted :: "rx list \<Rightarrow> string \<Rightarrow> real option" where
  "first_accepted [] text = None"
| "first_accepted (p # ps) text =
     (case first_match p text of
        None \<Rightarrow> first_accepted ps text
      | Some v \<Rightarrow> if 0 \<le> v \<and> v \<le> 100 then Some v else first_accepted ps text)"

definition rules :: "string \<Rightarrow> rx list" where
  \<comment> \<open>every variant of the name with every pattern shape, variants outermost\<close>
  "rules key = concat (map patterns (key_variations key))"

definition accepted :: "string \<Rightarrow> string \<Rightarrow> real option" where
  "accepted key text = first_accepted (rules key) text"

definition found_scores :: "string list \<Rightarrow> string \<Rightarrow> scores" where
  \<comment> \<open>the categories that have an accepted value, in the order of the rubric\<close>
  "found_scores keys text =
     List.map_filter (\<lambda>k. map_option (Pair k) (accepted k text)) keys"

definition zero_filled :: "string list \<Rightarrow> string \<Rightarrow> string \<Rightarrow> real option" where
  \<comment> \<open>the mapping that is returned: the accepted value, or 0, for every category\<close>
  "zero_filled keys text k =
     (if k \<in> set keys then Some (case accepted k text of None \<Rightarrow> 0 | Some v \<Rightarrow> v) else None)"

definition spec_total :: "rubric \<Rightarrow> string \<Rightarrow> real" where
  \<comment> \<open>the sum of category score, or zero, times category weight\<close>
  "spec_total rb text =
     sum_list (map (\<lambda>(k, w). (case accepted k text of None \<Rightarrow> 0 | Some v \<Rightarrow> v) * w) rb)"

fun anchor_free :: "rx \<Rightarrow> bool" where
  "anchor_free EndAnchor = False"
| "anchor_free (Opt r) = anchor_free r"
| "anchor_free (Group r) = anchor_free r"
| "anchor_free (Seq a b) = (anchor_free a \<and> anchor_free b)"
| "anchor_free (Alt a b) = (anchor_free a \<and> anchor_free b)"
| "anchor_free r = True"

section \<open>Sample replies\<close>

definition lines :: "string list \<Rightarrow> string" where
  \<comment> \<open>the lines joined by newlines, as \<open>"\n".join\<close> does\<close>
  "lines ls = (case ls of [] \<Rightarrow> [] | l # rest \<Rightarrow> l @ concat (map (\<lambda>x. newline # x) rest))"

definition reply_block_75 :: string where
  "reply_block_75 = lines [''SCORES:'', ''A: 80'', ''B: 70'', ''WEIGHTED TOTAL: 75'']"

definition reply_block_0 :: string where
  "reply_block_0 = lines [''SCORES:'', ''A: 80'', ''B: 70'', ''WEIGHTED TOTAL: 0'']"



definition reply_total_150 :: string where
  "reply_total_150 = lines [''A: 80'', ''B: 70'', ''WEIGHTED TOTAL: 150'']"


definition reply_out_of_range :: string where
  "reply_out_of_range = lines [''A: 101'', ''A = 50'', ''B: 100'']"

definition reply_prose :: string where
  "reply_prose = ''Nothing to report.''"

section \<open>Well-formed score blocks\<close>

text \<open>
  The reply that the system prompt asks for: the header \<open>SCORES:\<close>, one line
  \<open>name: number\<close> for every category in the order of the rubric, and the line
  \<open>WEIGHTED TOTAL: number\<close>.
\<close>

definition score_line :: "string \<Rightarrow> string \<Rightarrow> string" where
  "score_line k n = k @ '': '' @ n"

definition block_body :: "rubric \<Rightarrow> (string \<Rightarrow> string) \<Rightarrow> string" where
  "block_body rb num = concat (map (\<lambda>l. l @ [newline]) (map (\<lambda>(k, w). score_line k (num k)) rb))"

definition scores_block :: "rubric \<Rightarrow> (string \<Rightarrow> string) \<Rightarrow> string \<Rightarrow> string" where
  "scores_block rb num ts = ''SCORES:'' @ [newline] @ block_body rb num @ ''WEIGHTED TOTAL: '' @ ts"

fun ci_occurs :: "string \<Rightarrow> string \<Rightarrow> bool" where
  \<comment> \<open>the word occurs in the text, in any letter case\<close>
  "ci_occurs p [] = ci_prefix p []"
| "ci_occurs p (c # cs) = (ci_prefix p (c # cs) \<or> ci_occurs p cs)"

definition well_formed :: "rubric \<Rightarrow> (string \<Rightarrow> string) \<Rightarrow> (string \<Rightarrow> real) \<Rightarrow> bool" where
  \<comment> \<open>category names are distinct, not empty and on one line; every number is a numeral
     \<open>\d+(\.\d+)?\<close> of a value from 0 to 100; no line holds the name of another category or
     one of the words that end the scores section\<close>
  "well_formed rb num vals =
     (distinct (map fst rb) \<and>
      (\<forall>k \<in> set (map fst rb).
         k \<noteq> [] \<and> newline \<notin> set k \<and>
         py_float (num k) = Some (vals k) \<and> 0 \<le> vals k \<and> vals k \<le> 100 \<and>
         \<not> ci_occurs ''TOTAL'' (score_line k (num k)) \<and>
         \<not> ci_occurs ''OVERALL'' (score_line k (num k)) \<and>
         (\<forall>k' \<in> set (map fst rb). k' \<noteq> k \<longrightarrow> \<not> ci_occurs k' (score_line k (num k)))))"

definition starts :: "rx \<Rightarrow> mstate \<Rightarrow> mstate \<Rightarrow> bool" where
  \<comment> \<open>the first state that backtracking reaches\<close>
  "starts r st y = (\<exists>rest. rx_run r st = y # rest)"

definition number_ends :: "string \<Rightarrow> bool" where
  \<comment> \<open>what follows a numeral does not continue it\<close>
  "number_ends x = (x = [] \<or> (\<not> is_digit (hd x) \<and> hd x \<noteq> CHR ''.''))"

section \<open>Group 1 takes part in every match\<close>

fun sets_group :: "rx \<Rightarrow> bool" where
  "sets_group (Group r) = True"
| "sets_group (Seq a b) = (sets_group a \<or> sets_group b)"
| "sets_group (Alt a b) = (sets_group a \<and> sets_group b)"
| "sets_group r = False"

definition total_reply :: "string \<Rightarrow> string" where
  \<comment> \<open>a reply that carries a weighted total and nothing else\<close>
  "total_reply t = ''WEIGHTED TOTAL: '' @ t"


text \<open>The character classes read off the bits of a character, for evaluation.\<close>

lemma py_lower_bits [code]:
  "py_lower (Char b0 b1 b2 b3 b4 b5 b6 b7) =
     (if b6 \<and> \<not> b5 \<and>
         (if b7 then \<not> (b0 \<and> b1 \<and> b2 \<and> b4) else (b0 \<or> b1 \<or> b2 \<or> b3 \<or> b4) \<and> \<not> (b4 \<and> b3 \<and> (b2 \<or> (b1 \<and> b0))))
      then Char b0 b1 b2 b3 b4 True b6 b7 else Char b0 b1 b2 b3 b4 b5 b6 b7)"
  by (cases b0; cases b1; cases b2; cases b3; cases b4; cases b5; cases b6; cases b7;
      simp add: py_lower_def char_of_def bit_Suc_0_iff)

lemma is_digit_bits [code]:
  "is_digit (Char b0 b1 b2 b3 b4 b5 b6 b7) =
     (\<not> b7 \<and> \<not> b6 \<and> b5 \<and> b4 \<and> \<not> (b3 \<and> (b2 \<or> b1)))"
  by (cases b0; cases b1; cases b2; cases b3; cases b4; cases b5; cases b6; cases b7;
      simp add: is_digit_def)

lemma is_space_bits [code]:
  "is_space (Char b0 b1 b2 b3 b4 b5 b6 b7) =
     (if b7 then \<not> b6 \<and> \<not> b4 \<and> \<not> b3 \<and> \<not> b1 \<and> (if b5 then \<not> b2 \<and> \<not> b0 else b2 \<and> b0)
      else \<not> b6 \<and>
        (if b5 then \<not> b4 \<and> \<not> b3 \<and> \<not> b2 \<and> \<not> b1 \<and> \<not> b0
         else if b4 then b3 \<and> b2
         else b3 \<and> (if b2 then \<not> b1 else b1 \<or> b0)))"
  by (cases b0; cases b1; cases b2; cases b3; cases b4; cases b5; cases b6; cases b7;
      simp add: is_space_def)

lemma rx_run_keeps_group:
  "(s', g') \<in> set (rx_run r (s, g)) \<Longrightarrow> g \<noteq> None \<Longrightarrow> g' \<noteq> None"
proof (induction r arbitrary: s g s' g')
  case (Seq a b)
  then show ?case by (auto; blast)
next
  case (Plus k)
  then show ?case by (auto split: list.splits if_splits)
qed (auto split: if_splits)

lemma rx_run_sets_group:
  "sets_group r \<Longrightarrow> (s', g') \<in> set (rx_run r (s, g)) \<Longrightarrow> g' \<noteq> None"
proof (induction r arbitrary: s g s' g')
  case (Seq a b)
  then show ?case by (auto dest: rx_run_keeps_group; blast)
qed auto

lemma search_in_run:
  "search r t = Some m \<Longrightarrow> \<exists>s. m \<in> set (rx_run r (s, None))"
proof (induction t)
  case Nil
  then show ?case by (auto split: list.splits intro: exI [of _ "[]"])
next
  case (Cons c cs)
  then show ?case by (auto split: list.splits intro: exI [of _ "c # cs"])
qed

lemma search_sets_group:
  "sets_group r \<Longrightarrow> search r t = Some (s, g) \<Longrightarrow> g \<noteq> None"
  using rx_run_sets_group search_in_run by blast

lemma sets_group_patterns: "p \<in> set (patterns kv) \<Longrightarrow> sets_group p"
  by (auto simp: patterns_def colon_rx_def sep_rx_def leading_rx_def)

lemma sets_group_total_patterns: "p \<in> set total_patterns \<Longrightarrow> sets_group p"
  by (auto simp: total_patterns_def colon_rx_def)

lemma sets_group_section: "sets_group scores_section_rx"
  by (simp add: scores_section_rx_def)

lemma score_text_total: "\<exists>t. score_text r = Inr t"
  using search_sets_group [OF sets_group_section, of r]
  by (auto simp: score_text_def split: option.splits)

lemma for_patterns_total:
  "\<forall>p \<in> set ps. sets_group p \<Longrightarrow> \<exists>sc'. for_patterns key ps text sc = Inr sc'"
proof (induction ps)
  case (Cons p ps)
  then show ?case
    using search_sets_group [of p "text"]
    by (auto split: option.splits)
qed simp

lemma for_variations_total: "\<exists>sc'. for_variations key kvs text sc = Inr sc'"
proof (induction kvs arbitrary: sc)
  case (Cons kv kvs)
  obtain sc1 where "for_patterns key (patterns kv) text sc = Inr sc1"
    using for_patterns_total [of "patterns kv"] sets_group_patterns by blast
  then show ?case using Cons [of sc1] by auto
qed simp

lemma for_keys_total: "\<exists>sc'. for_keys keys text sc = Inr sc'"
proof (induction keys arbitrary: sc)
  case (Cons key keys)
  obtain sc1 where "for_variations key (key_variations key) text sc = Inr sc1"
    using for_variations_total by blast
  then show ?case using Cons [of sc1] by auto
qed simp

lemma scan_total_total:
  "\<forall>p \<in> set ps. sets_group p \<Longrightarrow> \<exists>t. scan_total ps r t0 = Inr t"
proof (induction ps arbitrary: t0)
  case (Cons p ps)
  then show ?case
    using search_sets_group [of p r]
    by (auto split: option.splits)
qed simp

lemma extract_scores_total: "\<exists>sc tot. extract_scores rb r = Inr (sc, tot)"
proof -
  obtain t where t: "score_text r = Inr t" using score_text_total by blast
  obtain sc where sc: "for_keys (map fst rb) t [] = Inr sc" using for_keys_total by blast
  obtain tot where tot: "scan_total total_patterns r 0 = Inr tot"
    using scan_total_total [of total_patterns] sets_group_total_patterns by blast
  show ?thesis by (simp add: extract_scores_def t sc tot)
qed

section \<open>The loops of the extraction and the ordered rules\<close>

lemma for_patterns_spec:
  assumes "\<forall>p \<in> set ps. sets_group p"
  shows "for_patterns key ps body sc =
     Inr (case first_accepted ps body of None \<Rightarrow> sc | Some v \<Rightarrow> AList.update key v sc)"
  using assms
proof (induction ps)
  case Nil
  then show ?case by simp
next
  case (Cons p ps)
  then have sg: "sets_group p" by simp
  show ?case
  proof (cases "search p body")
    case None
    then show ?thesis using Cons by (simp add: first_match_def)
  next
    case (Some m)
    obtain rest g where m: "m = (rest, Some g)"
      using search_sets_group [OF sg, of body "fst m" "snd m"] Some by (cases m) auto
    show ?thesis using Cons Some m
      by (auto simp: first_match_def split: option.splits)
  qed
qed

lemma update_fresh: "map_of sc key = None \<Longrightarrow> AList.update key v sc = sc @ [(key, v)]"
  by (induction sc) (auto split: if_splits)

lemma for_variations_spec:
  assumes "map_of sc key = None"
  shows "for_variations key kvs body sc =
     Inr (case first_accepted (concat (map patterns kvs)) body of
            None \<Rightarrow> sc | Some v \<Rightarrow> AList.update key v sc)"
  using assms
proof (induction kvs)
  case Nil
  then show ?case by simp
next
  case (Cons kv kvs)
  have fa: "first_accepted (ps @ qs) body =
      (case first_accepted ps body of None \<Rightarrow> first_accepted qs body | Some v \<Rightarrow> Some v)" for ps qs
    by (induction ps) (auto split: option.splits)
  have fp: "for_patterns key (patterns kv) body sc =
     Inr (case first_accepted (patterns kv) body of None \<Rightarrow> sc | Some v \<Rightarrow> AList.update key v sc)"
    using for_patterns_spec sets_group_patterns by blast
  show ?case
  proof (cases "first_accepted (patterns kv) body")
    case None
    then show ?thesis using Cons fp by (simp add: fa)
  next
    case (Some v)
    then show ?thesis using Cons fp by (simp add: fa update_fresh)
  qed
qed

lemma for_keys_spec:
  assumes "distinct keys" and "\<forall>k \<in> set keys. map_of sc k = None"
  shows "for_keys keys body sc = Inr (sc @ found_scores keys body)"
  using assms
proof (induction keys arbitrary: sc)
  case Nil
  then show ?case by (simp add: found_scores_def List.map_filter_simps)
next
  case (Cons key keys)
  have none: "map_of sc key = None" using Cons.prems by simp
  have fv: "for_variations key (key_variations key) body sc =
     Inr (case accepted key body of None \<Rightarrow> sc | Some v \<Rightarrow> AList.update key v sc)"
    using for_variations_spec [OF none] by (simp add: accepted_def rules_def)
  show ?case
  proof (cases "accepted key body")
    case None
    then show ?thesis using Cons fv
      by (simp add: found_scores_def List.map_filter_simps)
  next
    case (Some v)
    have "\<forall>k \<in> set keys. map_of (sc @ [(key, v)]) k = None"
      using Cons.prems by (auto simp: map_add_def split: option.splits)
    then have "for_keys keys body (sc @ [(key, v)]) = Inr ((sc @ [(key, v)]) @ found_scores keys body)"
      using Cons.IH Cons.prems(1) by simp
    then show ?thesis using Some fv none
      by (simp add: found_scores_def List.map_filter_simps update_fresh)
  qed
qed

lemma map_of_found:
  "map_of (found_scores keys body) k = (if k \<in> set keys then accepted k body else None)"
  by (induction keys) (auto simp: found_scores_def List.map_filter_simps split: option.splits)

lemma map_of_fill_missing:
  "map_of (fill_missing keys sc) k =
     (case map_of sc k of Some v \<Rightarrow> Some v | None \<Rightarrow> if k \<in> set keys then Some 0 else None)"
proof (induction keys arbitrary: sc)
  case Nil
  then show ?case by (simp split: option.splits)
next
  case (Cons key keys)
  show ?case
    by (auto simp: Cons.IH update_conv' split: option.splits)
qed

lemma extract_scores_spec:
  assumes "distinct (map fst rb)" and "score_text r = Inr body"
    and "scan_total total_patterns r 0 = Inr t"
  shows "extract_scores rb r =
     Inr (fill_missing (map fst rb) (found_scores (map fst rb) body),
          recompute rb (found_scores (map fst rb) body) t)"
  using assms for_keys_spec [of "map fst rb" "[]" body]
  by (simp add: extract_scores_def)

lemma returned_mapping:
  "map_of (fill_missing keys (found_scores keys body)) = zero_filled keys body"
  by (rule ext) (simp add: map_of_fill_missing map_of_found zero_filled_def split: option.splits)


section \<open>A match inside a part of the text is a match in the text\<close>

lemma star_run_mono: "s' \<in> set (star_run k s) \<Longrightarrow> s' @ post \<in> set (star_run k (s @ post))"
proof (induction s)
  case Nil
  then show ?case by (cases post) auto
qed (auto split: if_splits)

lemma lazy_run_mono: "s' \<in> set (lazy_run k s) \<Longrightarrow> s' @ post \<in> set (lazy_run k (s @ post))"
proof (induction s)
  case Nil
  then show ?case by (cases post) auto
qed (auto split: if_splits)

lemma ci_prefix_length: "ci_prefix p s \<Longrightarrow> length p \<le> length s"
  by (induction p s rule: ci_prefix.induct) auto

lemma ci_prefix_append: "ci_prefix p s \<Longrightarrow> ci_prefix p (s @ post)"
  by (induction p s rule: ci_prefix.induct) auto

lemma rx_run_suffix: "(s', g') \<in> set (rx_run r (s, g)) \<Longrightarrow> suffix s' s"
proof (induction r arbitrary: s g s' g')
  case (Lit p)
  then show ?case by (auto split: if_splits simp: suffix_drop)
next
  case (Star k)
  have "x \<in> set (star_run k t) \<Longrightarrow> suffix x t" for x t
    by (induction t) (auto split: if_splits simp: suffix_Cons)
  then show ?case using Star by auto
next
  case (Plus k)
  have "x \<in> set (star_run k t) \<Longrightarrow> suffix x t" for x t
    by (induction t) (auto split: if_splits simp: suffix_Cons)
  then show ?case using Plus by (auto split: list.splits if_splits simp: suffix_Cons)
next
  case (LazyStar k)
  have "x \<in> set (lazy_run k t) \<Longrightarrow> suffix x t" for x t
    by (induction t) (auto split: if_splits simp: suffix_Cons)
  then show ?case using LazyStar by auto
next
  case (Seq a b)
  then show ?case by (auto; meson suffix_order.trans)
qed (auto split: if_splits)

lemma rx_run_mono:
  "anchor_free r \<Longrightarrow> (s', g') \<in> set (rx_run r (s, g)) \<Longrightarrow>
   (s' @ post, g') \<in> set (rx_run r (s @ post, g))"
proof (induction r arbitrary: s g s' g')
  case (Lit p)
  then show ?case by (auto split: if_splits simp: ci_prefix_append dest: ci_prefix_length)
next
  case (Star k)
  then show ?case by (auto simp: star_run_mono)
next
  case (Plus k)
  then show ?case by (auto split: list.splits if_splits simp: star_run_mono)
next
  case (LazyStar k)
  then show ?case by (auto simp: lazy_run_mono)
next
  case (Opt r)
  then show ?case by auto
next
  case (Seq a b)
  then show ?case by (auto; blast)
next
  case (Alt a b)
  then show ?case by auto
next
  case (Group r)
  from Group.prems obtain g0 where in0: "(s', g0) \<in> set (rx_run r (s, g))"
    and g': "g' = Some (take (length s - length s') s)" by auto
  have "suffix s' s" using in0 by (rule rx_run_suffix)
  then have "take (length s - length s') s = take (length (s @ post) - length (s' @ post)) (s @ post)"
    by (auto simp: suffix_def)
  moreover have "(s' @ post, g0) \<in> set (rx_run r (s @ post, g))"
    using Group.IH [OF _ in0] Group.prems(1) by simp
  ultimately show ?case using g' by force
next
  case EndAnchor
  then show ?case by simp
qed

lemma search_None_iff: "search r t = None \<longleftrightarrow> (\<forall>i \<le> length t. rx_run r (drop i t, None) = [])"
proof (induction t)
  case Nil
  then show ?case by (auto split: list.splits)
next
  case (Cons c cs)
  show ?case
  proof
    assume a: "search r (c # cs) = None"
    then have 0: "rx_run r (c # cs, None) = []" and "search r cs = None"
      by (auto split: list.splits)
    then have 1: "\<forall>i \<le> length cs. rx_run r (drop i cs, None) = []" using Cons by simp
    show "\<forall>i \<le> length (c # cs). rx_run r (drop i (c # cs), None) = []"
    proof (intro allI impI)
      fix i assume "i \<le> length (c # cs)"
      then show "rx_run r (drop i (c # cs), None) = []"
        using 0 1 by (cases i) auto
    qed
  next
    assume a: "\<forall>i \<le> length (c # cs). rx_run r (drop i (c # cs), None) = []"
    then have 0: "rx_run r (c # cs, None) = []" by (metis drop0 le0)
    have "\<forall>i \<le> length cs. rx_run r (drop i cs, None) = []"
    proof (intro allI impI)
      fix i assume "i \<le> length cs"
      then show "rx_run r (drop i cs, None) = []" using a [rule_format, of "Suc i"] by simp
    qed
    then show "search r (c # cs) = None" using 0 Cons by simp
  qed
qed

lemma search_None_sublist:
  assumes "anchor_free r" and "search r t = None" and "sublist b t"
  shows "search r b = None"
proof -
  obtain pre post where t: "t = pre @ b @ post" using assms(3) by (auto simp: sublist_def)
  show ?thesis
    unfolding search_None_iff
  proof (intro allI impI)
    fix i assume i: "i \<le> length b"
    have "length pre + i \<le> length t" using i by (simp add: t)
    then have "rx_run r (drop (length pre + i) t, None) = []"
      using assms(2) unfolding search_None_iff by blast
    then have e: "rx_run r (drop i b @ post, None) = []" using i by (simp add: t)
    show "rx_run r (drop i b, None) = []"
    proof (rule ccontr)
      assume "rx_run r (drop i b, None) \<noteq> []"
      then obtain s' g' where "(s', g') \<in> set (rx_run r (drop i b, None))"
        by (cases "rx_run r (drop i b, None)") auto
      then have "(s' @ post, g') \<in> set (rx_run r (drop i b @ post, None))"
        using assms(1) by (rule rx_run_mono [rotated])
      with e show False by simp
    qed
  qed
qed

lemma rx_run_group_sublist:
  "(s', g') \<in> set (rx_run r (s, g)) \<Longrightarrow> g' = g \<or> (\<exists>b. g' = Some b \<and> sublist b s)"
proof (induction r arbitrary: s g s' g')
  case (Seq a b)
  from Seq.prems obtain s1 g1 where 1: "(s1, g1) \<in> set (rx_run a (s, g))"
    and 2: "(s', g') \<in> set (rx_run b (s1, g1))" by auto
  have suf: "suffix s1 s" using 1 by (rule rx_run_suffix)
  from Seq.IH(2) [OF 2] show ?case
  proof
    assume "g' = g1"
    then show ?thesis using Seq.IH(1) [OF 1] by simp
  next
    assume "\<exists>b. g' = Some b \<and> sublist b s1"
    then obtain b where b: "g' = Some b" "sublist b s1" by blast
    have "sublist s1 s" using suf by (rule suffix_imp_sublist)
    with b(2) have "sublist b s" by (rule sublist_order.order.trans)
    with b(1) show ?thesis by blast
  qed
next
  case (Plus k)
  then show ?case by (auto split: list.splits if_splits)
next
  case (Group r)
  then show ?case by (auto simp: sublist_take)
next
  case (Alt a b)
  from Alt.prems have "(s', g') \<in> set (rx_run a (s, g)) \<or> (s', g') \<in> set (rx_run b (s, g))"
    by simp
  then show ?case using Alt.IH by blast
next
  case (Opt r)
  from Opt.prems have "(s', g') \<in> set (rx_run r (s, g)) \<or> (s', g') = (s, g)"
    by auto
  then show ?case using Opt.IH by blast
qed (auto split: if_splits)

lemma search_group_sublist:
  "search r t = Some (rest, Some b) \<Longrightarrow> sublist b t"
proof (induction t)
  case Nil
  then have "(rest, Some b) \<in> set (rx_run r ([], None))" by (auto split: list.splits)
  then show ?case using rx_run_group_sublist by fastforce
next
  case (Cons c cs)
  show ?case
  proof (cases "rx_run r (c # cs, None)")
    case Nil
    then show ?thesis using Cons by (auto simp: sublist_Cons_right)
  next
    case (Cons m ms)
    then have "(rest, Some b) \<in> set (rx_run r (c # cs, None))" using Cons.prems by simp
    then show ?thesis using rx_run_group_sublist by fastforce
  qed
qed

lemma score_text_sublist: "score_text r = Inr body \<Longrightarrow> sublist body r"
  by (auto simp: score_text_def split: option.splits dest: search_group_sublist)


section \<open>The returned mapping and total\<close>
lemma py_float_nonneg: "py_float g = Some v \<Longrightarrow> 0 \<le> v"
  by (auto simp: py_float_def Let_def split: if_splits list.splits)

lemma first_match_nonneg: "first_match p body = Some v \<Longrightarrow> 0 \<le> v"
  by (auto simp: first_match_def split: option.splits dest: py_float_nonneg)


lemma first_accepted_nomatch:
  "\<forall>p \<in> set ps. search p body = None \<Longrightarrow> first_accepted ps body = None"
  by (induction ps) (auto simp: first_match_def)

lemma scan_total_nomatch:
  "\<forall>p \<in> set ps. search p r = None \<Longrightarrow> scan_total ps r t0 = Inr t0"
  by (induction ps) auto

lemma length_found:
  "length (found_scores keys body) < length keys \<longleftrightarrow> (\<exists>k \<in> set keys. accepted k body = None)"
proof -
  have "length (found_scores keys body) = length (filter (\<lambda>k. accepted k body \<noteq> None) keys)"
    by (induction keys) (auto simp: found_scores_def List.map_filter_simps split: option.splits)
  moreover have "length (filter (\<lambda>k. accepted k body \<noteq> None) keys) < length keys
      \<longleftrightarrow> (\<exists>k \<in> set keys. accepted k body = None)"
    by (metis (mono_tags, lifting) filter_True length_filter_less filter_id_conv nat_less_le)
  ultimately show ?thesis by simp
qed


lemma get_found:
  "k \<in> set keys \<Longrightarrow> get (found_scores keys body) k = (case accepted k body of None \<Rightarrow> 0 | Some v \<Rightarrow> v)"
  by (simp add: get_def map_of_found split: option.splits)

lemma sum_weights_cong:
  assumes "\<And>k. k \<in> set (map fst rb) \<Longrightarrow> f k = h k"
  shows "sum_list (map (\<lambda>(k, w). f k * w) rb) = sum_list (map (\<lambda>(k, w). h k * (w::real)) rb)"
proof -
  have "map (\<lambda>(k, w). f k * w) rb = map (\<lambda>(k, w). h k * w) rb"
    using assms by (intro map_cong) (auto simp: rev_image_eqI)
  then show ?thesis by (rule arg_cong)
qed

lemma calculated_total_found:
  "calculated_total rb (found_scores (map fst rb) body) = spec_total rb body"
  unfolding calculated_total_def spec_total_def
  by (rule sum_weights_cong) (simp add: get_found)


lemma extract_scores_rule:
  assumes "distinct (map fst rb)"
  shows "\<exists>body t sc. score_text r = Inr body \<and> scan_total total_patterns r 0 = Inr t \<and>
     map_of sc = zero_filled (map fst rb) body \<and>
     extract_scores rb r =
       Inr (sc, if (t = 0 \<or> (\<exists>k \<in> set (map fst rb). accepted k body = None)) \<and> 0 < spec_total rb body
                then spec_total rb body else t)"
proof -
  obtain body where b: "score_text r = Inr body" using score_text_total by blast
  obtain t where t: "scan_total total_patterns r 0 = Inr t"
    using scan_total_total [of total_patterns] sets_group_total_patterns by blast
  let ?found = "found_scores (map fst rb) body"
  have "recompute rb ?found t =
      (if (t = 0 \<or> (\<exists>k \<in> set (map fst rb). accepted k body = None)) \<and> 0 < spec_total rb body
       then spec_total rb body else t)"
  proof -
    have lf: "length ?found < length rb \<longleftrightarrow> (\<exists>k \<in> set (map fst rb). accepted k body = None)"
      using length_found [of "map fst rb" body] by simp
    show ?thesis
      unfolding recompute_def calculated_total_found lf
      by (cases "t = 0 \<or> (\<exists>k \<in> set (map fst rb). accepted k body = None)") auto
  qed
  then show ?thesis
    using extract_scores_spec [OF assms b t] b t
    by (intro exI [of _ body] exI [of _ t] exI [of _ "fill_missing (map fst rb) ?found"])
       (simp add: returned_mapping)
qed


lemma for_keys_nomatch:
  "\<forall>k \<in> set keys. accepted k body = None \<Longrightarrow> for_keys keys body [] = Inr []"
proof (induction keys)
  case (Cons key keys)
  have "for_variations key (key_variations key) body [] = Inr []"
    using for_variations_spec [of "[]" key "key_variations key" body] Cons.prems
    by (simp add: accepted_def rules_def)
  then show ?case using Cons by simp
qed simp

lemma anchor_free_rules: "p \<in> set (rules k) \<Longrightarrow> anchor_free p"
  by (auto simp: rules_def patterns_def colon_rx_def sep_rx_def leading_rx_def number_rx_def)

lemma map_of_fill_empty:
  "map_of (fill_missing keys []) = (\<lambda>k. if k \<in> set keys then Some 0 else None)"
  by (rule ext) (simp add: map_of_fill_missing)

lemma extract_scores_nomatch:
  assumes "\<forall>k \<in> set (map fst rb). \<forall>p \<in> set (rules k). search p r = None"
    and "\<forall>p \<in> set total_patterns. search p r = None"
  shows "extract_scores rb r = Inr (fill_missing (map fst rb) [], 0)"
proof -
  obtain body where b: "score_text r = Inr body" using score_text_total by blast
  then have sub: "sublist body r" by (rule score_text_sublist)
  have "\<forall>k \<in> set (map fst rb). accepted k body = None"
  proof
    fix k assume k: "k \<in> set (map fst rb)"
    have "\<forall>p \<in> set (rules k). search p body = None"
      using assms(1) k sub by (meson anchor_free_rules search_None_sublist)
    then show "accepted k body = None" by (simp add: accepted_def first_accepted_nomatch)
  qed
  then have fk: "for_keys (map fst rb) body [] = Inr []" by (rule for_keys_nomatch)
  have st: "scan_total total_patterns r 0 = Inr 0" using assms(2) by (rule scan_total_nomatch)
  have "calculated_total rb [] = 0"
    by (simp add: calculated_total_def get_def split_def)
  then have "recompute rb [] 0 = 0" by (simp add: recompute_def)
  then show ?thesis by (simp add: extract_scores_def b fk st)
qed


section \<open>First matches on texts of a known shape\<close>

lemma starts_Lit: "ci_prefix p s \<Longrightarrow> starts (Lit p) (s, g) (drop (length p) s, g)"
  by (simp add: starts_def)

lemma star_run_hd: "\<exists>rest. star_run k s = dropWhile (in_cls k) s # rest"
  by (induction s) auto

lemma starts_Star: "starts (Star k) (s, g) (dropWhile (in_cls k) s, g)"
  using star_run_hd [of k s] by (auto simp: starts_def)

lemma starts_Plus:
  "in_cls k c \<Longrightarrow> starts (Plus k) (c # cs, g) (dropWhile (in_cls k) cs, g)"
  using star_run_hd [of k cs] by (auto simp: starts_def)

lemma starts_Opt: "starts r st y \<Longrightarrow> starts (Opt r) st y"
  by (auto simp: starts_def)

lemma starts_Opt_skip: "rx_run r st = [] \<Longrightarrow> starts (Opt r) st st"
  by (simp add: starts_def)

lemma starts_Seq: "starts a st x \<Longrightarrow> starts b x y \<Longrightarrow> starts (Seq a b) st y"
  by (auto simp: starts_def)

lemma starts_Seq_gen:
  "rx_run a st = pre @ x # post \<Longrightarrow> \<forall>z \<in> set pre. rx_run b z = [] \<Longrightarrow> starts b x y \<Longrightarrow>
   starts (Seq a b) st y"
proof -
  assume a: "rx_run a st = pre @ x # post" and e: "\<forall>z \<in> set pre. rx_run b z = []"
    and b: "starts b x y"
  have c0: "concat (map (rx_run b) pre) = []" using e by simp
  obtain rest where r: "rx_run b x = y # rest" using b by (auto simp: starts_def)
  have "rx_run (Seq a b) st =
      concat (map (rx_run b) pre) @ rx_run b x @ concat (map (rx_run b) post)"
    using a by simp
  then have "rx_run (Seq a b) st = y # (rest @ concat (map (rx_run b) post))"
    unfolding c0 r by simp
  then show ?thesis unfolding starts_def by blast
qed

lemma starts_Alt1: "starts a st y \<Longrightarrow> starts (Alt a b) st y"
  by (auto simp: starts_def)

lemma starts_Alt2: "rx_run a st = [] \<Longrightarrow> starts b st y \<Longrightarrow> starts (Alt a b) st y"
  by (auto simp: starts_def)

lemma starts_Group:
  "starts r (s, g) (s', g') \<Longrightarrow> starts (Group r) (s, g) (s', Some (take (length s - length s') s))"
  by (auto simp: starts_def)

lemma search_starts: "starts r (s, None) y \<Longrightarrow> search r s = Some y"
  by (cases s) (auto simp: starts_def)

lemma search_skip:
  "\<forall>i < length pre. rx_run r (drop i (pre @ s), None) = [] \<Longrightarrow> search r (pre @ s) = search r s"
proof (induction pre)
  case (Cons c pre)
  have 0: "rx_run r ((c # pre) @ s, None) = []" using Cons.prems by (metis drop0 length_greater_0_conv list.distinct(1))
  have "\<forall>i < length pre. rx_run r (drop i (pre @ s), None) = []"
  proof (intro allI impI)
    fix i assume "i < length pre"
    then show "rx_run r (drop i (pre @ s), None) = []"
      using Cons.prems [rule_format, of "Suc i"] by simp
  qed
  then show ?case using Cons.IH 0 by simp
qed simp

lemma rx_run_Lit_first:
  "\<not> ci_prefix p s \<Longrightarrow> rx_run (Seq (Lit p) r) (s, g) = []"
  by simp

lemma py_lower_newline: "py_lower c = py_lower newline \<longleftrightarrow> c = newline"
  by (cases c) (auto simp: py_lower_bits newline_def)

lemma py_lower_dot: "py_lower c = py_lower (CHR ''.'') \<longleftrightarrow> c = CHR ''.''"
  by (cases c) (auto simp: py_lower_bits)

lemma is_space_newline: "is_space newline"
  by (simp add: newline_def is_space_bits)

lemma digit_not_space: "is_digit c \<Longrightarrow> \<not> is_space c"
  by (cases c) (auto simp: is_digit_bits is_space_bits)

lemma ci_prefix_refl: "ci_prefix k (k @ x)"
  by (induction k) auto

lemma no_straddle: "newline \<notin> set p \<Longrightarrow> ci_prefix p (l @ newline # x) \<Longrightarrow> ci_prefix p l"
proof (induction p l rule: ci_prefix.induct)
  case (2 p ps)
  then show ?case using py_lower_newline [of p] by auto
qed auto

lemma ci_occurs_iff: "ci_occurs p s \<longleftrightarrow> (\<exists>i \<le> length s. ci_prefix p (drop i s))"
proof (induction s)
  case Nil
  then show ?case by simp
next
  case (Cons c cs)
  show ?case
  proof
    assume "ci_occurs p (c # cs)"
    then consider "ci_prefix p (c # cs)" | "ci_occurs p cs" by auto
    then show "\<exists>i \<le> length (c # cs). ci_prefix p (drop i (c # cs))"
    proof cases
      case 1
      then show ?thesis by (intro exI [of _ 0]) simp
    next
      case 2
      then obtain i where "i \<le> length cs" "ci_prefix p (drop i cs)" using Cons by blast
      then show ?thesis by (intro exI [of _ "Suc i"]) simp
    qed
  next
    assume "\<exists>i \<le> length (c # cs). ci_prefix p (drop i (c # cs))"
    then obtain i where i: "i \<le> length (c # cs)" "ci_prefix p (drop i (c # cs))" by blast
    show "ci_occurs p (c # cs)"
    proof (cases i)
      case 0
      then show ?thesis using i by simp
    next
      case (Suc j)
      then have "ci_occurs p cs" using i Cons by auto
      then show ?thesis by simp
    qed
  qed
qed

lemma ci_prefix_drop: "ci_prefix (a @ b) s \<Longrightarrow> ci_prefix b (drop (length a) s)"
proof (induction a arbitrary: s)
  case (Cons x a)
  then show ?case by (cases s) auto
qed simp

lemma ci_occurs_tail: "ci_occurs (a @ b) s \<Longrightarrow> ci_occurs b s"
proof -
  assume "ci_occurs (a @ b) s"
  then obtain i where i: "i \<le> length s" "ci_prefix (a @ b) (drop i s)"
    unfolding ci_occurs_iff by blast
  then have "ci_prefix b (drop (length a + i) s)" using ci_prefix_drop [of a b "drop i s"] by simp
  moreover have "length a + i \<le> length s"
    using ci_prefix_length [OF i(2)] i(1) by simp
  ultimately show ?thesis unfolding ci_occurs_iff by blast
qed

lemma no_occurrence_in_lines:
  assumes "p \<noteq> []" and "newline \<notin> set p" and "\<forall>l \<in> set ls. \<not> ci_occurs p l"
    and "i < length (concat (map (\<lambda>l. l @ [newline]) ls))"
  shows "\<not> ci_prefix p (drop i (concat (map (\<lambda>l. l @ [newline]) ls) @ s))"
  using assms(3,4)
proof (induction ls arbitrary: i)
  case Nil
  then show ?case by simp
next
  case (Cons l ls)
  let ?rest = "concat (map (\<lambda>l. l @ [newline]) ls) @ s"
  show ?case
  proof (cases "i \<le> length l")
    case True
    have "\<not> ci_prefix p (drop i l)"
      using Cons.prems(1) True unfolding ci_occurs_iff by auto
    then have "\<not> ci_prefix p (drop i l @ newline # ?rest)"
      using no_straddle [OF assms(2)] by blast
    then show ?thesis using True by simp
  next
    case False
    then obtain j where j: "i = Suc (length l) + j"
      by (metis Suc_leI add_Suc le_add_diff_inverse not_le)
    then have "j < length (concat (map (\<lambda>l. l @ [newline]) ls))"
      using Cons.prems(2) by simp
    then have "\<not> ci_prefix p (drop j ?rest)"
      using Cons.IH Cons.prems(1) by simp
    moreover have "drop i (concat (map (\<lambda>l. l @ [newline]) (l # ls)) @ s) = drop j ?rest"
      unfolding j by simp
    ultimately show ?thesis by simp
  qed
qed


lemma py_float_shape:
  assumes "py_float n = Some v"
  shows "(n \<noteq> [] \<and> list_all is_digit n) \<or>
         (\<exists>ip fp. n = ip @ CHR ''.'' # fp \<and> ip \<noteq> [] \<and> fp \<noteq> [] \<and>
                  list_all is_digit ip \<and> list_all is_digit fp)"
proof -
  let ?ip = "takeWhile is_digit n" and ?rest = "dropWhile is_digit n"
  have n: "n = ?ip @ ?rest" by simp
  have ip: "?ip \<noteq> []"
    using assms by (auto simp: py_float_def Let_def split: if_splits)
  have "\<forall>c \<in> set ?ip. is_digit c"
    using set_takeWhileD [of _ is_digit n] by blast
  then have ipd: "list_all is_digit ?ip"
    unfolding list_all_iff by blast
  show ?thesis
  proof (cases ?rest)
    case Nil
    then have "n = ?ip" using n by (metis append_Nil2)
    then show ?thesis using ip ipd by metis
  next
    case (Cons c fp)
    then have "c = CHR ''.'' \<and> fp \<noteq> [] \<and> list_all is_digit fp"
      using assms by (auto simp: py_float_def Let_def split: if_splits)
    then show ?thesis using ip ipd n Cons by metis
  qed
qed

lemma dot_not_digit: "\<not> is_digit (CHR ''.'')"
  by (simp add: is_digit_bits)

lemma starts_digits:
  assumes "ds \<noteq> []" and "list_all is_digit ds" and "x = [] \<or> \<not> is_digit (hd x)"
  shows "starts (Plus Digit) (ds @ x, g) (x, g)"
proof -
  obtain c cs where ds: "ds = c # cs" using assms(1) by (cases ds) auto
  have "dropWhile (in_cls Digit) (cs @ x) = dropWhile (in_cls Digit) x"
    using assms(2) ds by (intro dropWhile_append2) (auto simp: list_all_iff)
  also have "\<dots> = x" using assms(3) by (cases x) auto
  finally have "dropWhile (in_cls Digit) (cs @ x) = x" .
  moreover have "in_cls Digit c" using assms(2) ds by simp
  ultimately show ?thesis using starts_Plus [of Digit c "cs @ x" g] by (simp add: ds)
qed

lemma starts_number:
  assumes "py_float n = Some v" and "number_ends x"
  shows "starts (Group number_rx) (n @ x, g) (x, Some n)"
proof -
  have "starts number_rx (n @ x, g) (x, g)"
    using py_float_shape [OF assms(1)]
  proof (elim disjE exE conjE)
    assume n: "n \<noteq> []" "list_all is_digit n"
    have 1: "starts (Plus Digit) (n @ x, g) (x, g)"
      using n assms(2) by (intro starts_digits) (auto simp: number_ends_def)
    have "\<not> ci_prefix ''.'' x"
      using assms(2) py_lower_dot [of "hd x"] by (cases x) (auto simp: number_ends_def)
    then have "rx_run (Seq (Lit ''.'') (Plus Digit)) (x, g) = []" by simp
    then have "starts (Opt (Seq (Lit ''.'') (Plus Digit))) (x, g) (x, g)" by (rule starts_Opt_skip)
    with 1 show ?thesis unfolding number_rx_def by (rule starts_Seq)
  next
    fix ip fp
    assume n: "n = ip @ CHR ''.'' # fp" "ip \<noteq> []" "fp \<noteq> []"
       "list_all is_digit ip" "list_all is_digit fp"
    have 1: "starts (Plus Digit) (ip @ (CHR ''.'' # fp @ x), g) (CHR ''.'' # fp @ x, g)"
      using n dot_not_digit by (intro starts_digits) auto
    have 2: "starts (Lit ''.'') (CHR ''.'' # fp @ x, g) (fp @ x, g)"
      using starts_Lit [of "''.''" "CHR ''.'' # fp @ x" g] by simp
    have 3: "starts (Plus Digit) (fp @ x, g) (x, g)"
      using n assms(2) by (intro starts_digits) (auto simp: number_ends_def)
    have "starts (Opt (Seq (Lit ''.'') (Plus Digit))) (CHR ''.'' # fp @ x, g) (x, g)"
      using 2 3 by (intro starts_Opt starts_Seq)
    with 1 show ?thesis unfolding number_rx_def using n(1) by (auto intro: starts_Seq)
  qed
  then have "starts (Group number_rx) (n @ x, g) (x, Some (take (length (n @ x) - length x) (n @ x)))"
    by (rule starts_Group)
  then show ?thesis by simp
qed

lemma py_float_first_digit:
  assumes "py_float n = Some v"
  shows "\<exists>c cs. n = c # cs \<and> is_digit c"
  using py_float_shape [OF assms]
proof (elim disjE exE conjE)
  assume "n \<noteq> []" "list_all is_digit n"
  then show ?thesis by (cases n) auto
next
  fix ip fp
  assume "n = ip @ CHR ''.'' # fp" "ip \<noteq> []" "list_all is_digit ip"
  then show ?thesis by (cases ip) auto
qed

lemma colon_not_space: "\<not> is_space (CHR '':'')"
  by (simp add: is_space_bits)

lemma starts_colon_line:
  assumes "py_float n = Some v" and "number_ends x"
  shows "starts (colon_rx k) (k @ '': '' @ n @ x, g) (x, Some n)"
proof -
  obtain c cs where n: "n = c # cs" "is_digit c" using py_float_first_digit [OF assms(1)] by blast
  have 1: "starts (Lit k) (k @ '': '' @ n @ x, g) ('': '' @ n @ x, g)"
    using starts_Lit [of k "k @ '': '' @ n @ x" g] by (simp add: ci_prefix_refl)
  have 2: "starts (Star Space) ('': '' @ n @ x, g) ('': '' @ n @ x, g)"
    using starts_Star [of Space "'': '' @ n @ x" g] colon_not_space by simp
  have 3: "starts (Opt (Lit '':'')) ('': '' @ n @ x, g) ('' '' @ n @ x, g)"
    using starts_Lit [of "'':''" "'': '' @ n @ x" g] by (intro starts_Opt) simp
  have 4: "starts (Star Space) ('' '' @ n @ x, g) (n @ x, g)"
    using starts_Star [of Space "'' '' @ n @ x" g] n digit_not_space
    by (simp add: is_space_bits)
  have 5: "starts (Group number_rx) (n @ x, g) (x, Some n)"
    using assms by (rule starts_number)
  show ?thesis
    unfolding colon_rx_def
    by (intro starts_Seq [OF 1] starts_Seq [OF 2] starts_Seq [OF 3] starts_Seq [OF 4] 5)
qed

lemma search_colon_line:
  assumes "py_float n = Some v" and "number_ends x"
    and "\<forall>i < length pre. \<not> ci_prefix k (drop i (pre @ k @ '': '' @ n @ x))"
  shows "search (colon_rx k) (pre @ k @ '': '' @ n @ x) = Some (x, Some n)"
proof -
  have "\<forall>i < length pre. rx_run (colon_rx k) (drop i (pre @ k @ '': '' @ n @ x), None) = []"
    using assms(3) by (simp add: colon_rx_def)
  then have "search (colon_rx k) (pre @ k @ '': '' @ n @ x) = search (colon_rx k) (k @ '': '' @ n @ x)"
    by (rule search_skip)
  also have "\<dots> = Some (x, Some n)"
    using starts_colon_line [OF assms(1,2)] by (rule search_starts)
  finally show ?thesis .
qed


lemma lazy_run_AnyChar: "lazy_run AnyChar s = map (\<lambda>j. drop j s) [0..<Suc (length s)]"
proof (induction s)
  case Nil
  then show ?case by simp
next
  case (Cons c cs)
  have "map (\<lambda>j. drop j (c # cs)) [0..<Suc (length (c # cs))] =
        (c # cs) # map (\<lambda>j. drop (Suc j) (c # cs)) [0..<Suc (length cs)]"
    by (simp add: map_upt_Suc del: upt_Suc)
  then show ?case using Cons by simp
qed

lemma rx_run_lazy_group:
  "rx_run (Group (LazyStar AnyChar)) (s, g) =
     map (\<lambda>j. (drop j s, Some (take j s))) [0..<Suc (length s)]"
  by (simp add: lazy_run_AnyChar del: upt_Suc)

lemma starts_lazy_group:
  assumes "\<forall>j < length u. rx_run r (drop j (u @ v), Some (take j (u @ v))) = []"
    and "starts r (v, Some u) y"
  shows "starts (Seq (Group (LazyStar AnyChar)) r) (u @ v, g) y"
proof -
  let ?f = "\<lambda>j. (drop j (u @ v), Some (take j (u @ v)))"
  have "[0..<length u + Suc (length v)] = [0..<length u] @ [length u..<length u + Suc (length v)]"
    by (rule upt_add_eq_append) simp
  moreover have "[length u..<length u + Suc (length v)] =
      length u # [Suc (length u)..<length u + Suc (length v)]"
    by (rule upt_conv_Cons) simp
  ultimately have sp: "[0..<Suc (length (u @ v))] =
      [0..<length u] @ length u # [Suc (length u)..<Suc (length (u @ v))]"
    by simp
  have "rx_run (Group (LazyStar AnyChar)) (u @ v, g) =
      map ?f [0..<length u] @ ?f (length u) # map ?f [Suc (length u)..<Suc (length (u @ v))]"
    unfolding rx_run_lazy_group sp by (simp del: upt_Suc)
  moreover have "\<forall>z \<in> set (map ?f [0..<length u]). rx_run r z = []"
    using assms(1) by auto
  moreover have "starts r (?f (length u)) y" using assms(2) by simp
  ultimately show ?thesis by (rule starts_Seq_gen)
qed

lemma star_run_no_newline:
  "newline \<notin> set (takeWhile is_space s) \<Longrightarrow> s' \<in> set (star_run Space s) \<Longrightarrow>
   \<not> ci_prefix [newline] s'"
proof (induction s)
  case Nil
  then show ?case by simp
next
  case (Cons c cs)
  show ?case
  proof (cases "is_space c")
    case True
    then have c: "c \<noteq> newline" and tl: "newline \<notin> set (takeWhile is_space cs)"
      using Cons.prems(1) by auto
    from Cons.prems(2) True consider "s' \<in> set (star_run Space cs)" | "s' = c # cs" by auto
    then show ?thesis
    proof cases
      case 1
      then show ?thesis using Cons.IH tl by blast
    next
      case 2
      then show ?thesis using c py_lower_newline [of c] by auto
    qed
  next
    case False
    then have "s' = c # cs" and "c \<noteq> newline"
      using Cons.prems(2) is_space_newline by auto
    then show ?thesis using py_lower_newline [of c] by auto
  qed
qed

lemma takeWhile_before: "\<not> P c \<Longrightarrow> set (takeWhile P (k @ c # x)) \<subseteq> set k"
  by (induction k) auto


section \<open>One pass and the loop\<close>

lemma loop_body_chat_fails:
  "chat ev (cur_iteration st) = Inl e \<Longrightarrow>
   loop_body rb target ev st = handler e (st\<lparr>chat_calls := chat_calls st @ [cur_prompt st]\<rparr>)"
  by (simp add: loop_body_def Let_def)

lemma loop_body_cases:
  assumes "chat ev (cur_iteration st) = Inr r"
  obtains sc ov where "extract_scores rb r = Inr (sc, ov)" and "pass_total rb r = ov"
  using extract_scores_total [of rb r] by (auto simp: pass_total_def)

lemma loop_body_write_fails:
  assumes "chat ev (cur_iteration st) = Inr r" and "write_iteration ev (cur_iteration st) = Some e"
  shows "\<exists>rec. iteration rec = cur_iteration st \<and> script rec = r \<and>
     loop_body rb target ev st =
       handler e (st\<lparr>chat_calls := chat_calls st @ [cur_prompt st], overall := pass_total rb r,
                      all_iterations := all_iterations st @ [rec]\<rparr>)"
proof -
  obtain sc ov where "extract_scores rb r = Inr (sc, ov)" "pass_total rb r = ov"
    using assms(1) by (rule loop_body_cases)
  then show ?thesis using assms
    by (auto simp: loop_body_def Let_def intro!: exI [of _ "\<lparr>iteration = cur_iteration st, script = r, scores = sc,
                               overall_score = ov, timestamp = strftime ev (cur_iteration st)\<rparr>"])
qed

lemma loop_body_success:
  assumes "chat ev (cur_iteration st) = Inr r" and "write_iteration ev (cur_iteration st) = None"
  shows "\<exists>rec pr. iteration rec = cur_iteration st \<and> script rec = r \<and>
     loop_body rb target ev st =
       (let st2 = st\<lparr>chat_calls := chat_calls st @ [cur_prompt st], overall := pass_total rb r,
                      all_iterations := all_iterations st @ [rec],
                      saved_files := saved_files st @ [cur_iteration st]\<rparr>
        in if pass_total rb r \<ge> target then Break st2
           else Continue (st2\<lparr>cur_prompt := pr, cur_iteration := cur_iteration st + 1\<rparr>))"
proof -
  obtain sc ov where "extract_scores rb r = Inr (sc, ov)" "pass_total rb r = ov"
    using assms(1) by (rule loop_body_cases)
  then show ?thesis using assms
    by (auto simp: loop_body_def Let_def intro!: exI [of _ "\<lparr>iteration = cur_iteration st, script = r, scores = sc,
                               overall_score = ov, timestamp = strftime ev (cur_iteration st)\<rparr>"])
qed


lemma while_loop_stop:
  "\<not> (overall st < target \<and> cur_iteration st \<le> maxit) \<Longrightarrow>
   while_loop rb target maxit ev st = (None, st)"
  by (subst while_loop.simps) auto

lemma while_loop_step:
  "overall st < target \<Longrightarrow> cur_iteration st \<le> maxit \<Longrightarrow>
   while_loop rb target maxit ev st =
     (case loop_body rb target ev st of
        Break st' \<Rightarrow> (None, st')
      | Propagate e st' \<Rightarrow> (Some e, st')
      | Continue st' \<Rightarrow> while_loop rb target maxit ev st')"
  by (subst while_loop.simps) simp

lemma replies_env_sel [simp]:
  "chat (replies_env f) n = Inr (f n)" "write_iteration (replies_env f) n = None"
  by (simp_all add: replies_env_def)

lemma replies_run:
  assumes "ev = replies_env f"
    and "overall st < target" and "1 \<le> cur_iteration st" and "cur_iteration st \<le> maxit + 1"
    and "length (chat_calls st) + 1 = cur_iteration st"
    and "length (all_iterations st) + 1 = cur_iteration st"
  shows "\<exists>st'. while_loop rb target maxit ev st = (None, st') \<and>
     length (all_iterations st') = length (chat_calls st') \<and>
     (\<forall>m. cur_iteration st \<le> m \<and> m \<le> maxit \<and> target \<le> pass_total rb (f m) \<and>
          (\<forall>n. cur_iteration st \<le> n \<and> n < m \<longrightarrow> pass_total rb (f n) < target)
        \<longrightarrow> target \<le> overall st' \<and> length (chat_calls st') = m \<and> cur_iteration st' = m) \<and>
     ((\<forall>n. cur_iteration st \<le> n \<and> n \<le> maxit \<longrightarrow> pass_total rb (f n) < target)
        \<longrightarrow> overall st' < target \<and> length (chat_calls st') = maxit \<and> cur_iteration st' = maxit + 1)"
  using assms
proof (induction rb target maxit ev st rule: while_loop.induct)
  case (1 rb target maxit ev st)
  let ?i = "cur_iteration st"
  show ?case
  proof (cases "?i \<le> maxit")
    case False
    then have "while_loop rb target maxit ev st = (None, st)" by (simp add: while_loop_stop)
    with False "1.prems" show ?thesis by auto
  next
    case True
    have ch: "chat ev ?i = Inr (f ?i)" and wr: "write_iteration ev ?i = None"
      using "1.prems"(1) by simp_all
    obtain rec pr where body: "loop_body rb target ev st =
       (let st2 = st\<lparr>chat_calls := chat_calls st @ [cur_prompt st], overall := pass_total rb (f ?i),
                      all_iterations := all_iterations st @ [rec],
                      saved_files := saved_files st @ [?i]\<rparr>
        in if pass_total rb (f ?i) \<ge> target then Break st2
           else Continue (st2\<lparr>cur_prompt := pr, cur_iteration := ?i + 1\<rparr>))"
      using loop_body_success [OF ch wr] by blast
    show ?thesis
    proof (cases "pass_total rb (f ?i) \<ge> target")
      case hit: True
      let ?st2 = "st\<lparr>chat_calls := chat_calls st @ [cur_prompt st], overall := pass_total rb (f ?i),
                      all_iterations := all_iterations st @ [rec],
                      saved_files := saved_files st @ [?i]\<rparr>"
      have w: "while_loop rb target maxit ev st = (None, ?st2)"
        using True "1.prems"(2) body hit by (simp add: while_loop_step Let_def)
      have a: "\<And>m. ?i \<le> m \<Longrightarrow> (\<forall>n. ?i \<le> n \<and> n < m \<longrightarrow> pass_total rb (f n) < target) \<Longrightarrow> m = ?i"
      proof (rule ccontr)
        fix m assume "?i \<le> m" and h: "\<forall>n. ?i \<le> n \<and> n < m \<longrightarrow> pass_total rb (f n) < target" and "m \<noteq> ?i"
        then have "?i < m" by simp
        with h have "pass_total rb (f ?i) < target" by blast
        with hit show False by simp
      qed
      show ?thesis
        unfolding w using hit "1.prems" True a by force
    next
      case miss: False
      let ?st3 = "st\<lparr>chat_calls := chat_calls st @ [cur_prompt st], overall := pass_total rb (f ?i),
                      all_iterations := all_iterations st @ [rec],
                      saved_files := saved_files st @ [?i],
                      cur_prompt := pr, cur_iteration := ?i + 1\<rparr>"
      have lb: "loop_body rb target ev st = Continue ?st3"
        using body miss by (simp add: Let_def)
      have w: "while_loop rb target maxit ev st = while_loop rb target maxit ev ?st3"
        using True "1.prems"(2) lb by (simp add: while_loop_step)
      have IH: "\<exists>st'. while_loop rb target maxit ev ?st3 = (None, st') \<and>
         length (all_iterations st') = length (chat_calls st') \<and>
         (\<forall>m. cur_iteration ?st3 \<le> m \<and> m \<le> maxit \<and> target \<le> pass_total rb (f m) \<and>
              (\<forall>n. cur_iteration ?st3 \<le> n \<and> n < m \<longrightarrow> pass_total rb (f n) < target)
            \<longrightarrow> target \<le> overall st' \<and> length (chat_calls st') = m \<and> cur_iteration st' = m) \<and>
         ((\<forall>n. cur_iteration ?st3 \<le> n \<and> n \<le> maxit \<longrightarrow> pass_total rb (f n) < target)
            \<longrightarrow> overall st' < target \<and> length (chat_calls st') = maxit \<and> cur_iteration st' = maxit + 1)"
        using "1.prems" True miss
        by (intro "1.IH" [OF _ lb]) simp_all
      then obtain st' where st': "while_loop rb target maxit ev ?st3 = (None, st')"
        and len: "length (all_iterations st') = length (chat_calls st')"
        and A: "\<And>m. ?i + 1 \<le> m \<Longrightarrow> m \<le> maxit \<Longrightarrow> target \<le> pass_total rb (f m) \<Longrightarrow>
              (\<forall>n. ?i + 1 \<le> n \<and> n < m \<longrightarrow> pass_total rb (f n) < target)
            \<Longrightarrow> target \<le> overall st' \<and> length (chat_calls st') = m \<and> cur_iteration st' = m"
        and B: "(\<forall>n. ?i + 1 \<le> n \<and> n \<le> maxit \<longrightarrow> pass_total rb (f n) < target)
            \<Longrightarrow> overall st' < target \<and> length (chat_calls st') = maxit \<and> cur_iteration st' = maxit + 1"
        by auto
      have A': "target \<le> overall st' \<and> length (chat_calls st') = m \<and> cur_iteration st' = m"
        if "?i \<le> m" "m \<le> maxit" "target \<le> pass_total rb (f m)"
           "\<forall>n. ?i \<le> n \<and> n < m \<longrightarrow> pass_total rb (f n) < target" for m
      proof -
        have "m \<noteq> ?i" using that(3) miss by auto
        then have "?i + 1 \<le> m" using that(1) by simp
        moreover have "\<forall>n. ?i + 1 \<le> n \<and> n < m \<longrightarrow> pass_total rb (f n) < target"
          using that(4) by simp
        ultimately show ?thesis using A that by blast
      qed
      have B': "overall st' < target \<and> length (chat_calls st') = maxit \<and> cur_iteration st' = maxit + 1"
        if "\<forall>n. ?i \<le> n \<and> n \<le> maxit \<longrightarrow> pass_total rb (f n) < target"
        using B that by simp
      show ?thesis
        unfolding w st' using len A' B' by blast
    qed
  qed
qed


lemma calls_bound:
  "while_loop rb target maxit ev st = (ex, st') \<Longrightarrow>
   length (chat_calls st') \<le> length (chat_calls st) + (Suc maxit - cur_iteration st)"
proof (induction rb target maxit ev st arbitrary: ex st' rule: while_loop.induct)
  case (1 rb target maxit ev st)
  show ?case
  proof (cases "overall st < target \<and> cur_iteration st \<le> maxit")
    case False
    then show ?thesis using "1.prems" by (simp add: while_loop_stop)
  next
    case True
    then have w: "(case loop_body rb target ev st of
        Break st' \<Rightarrow> (None, st')
      | Propagate e st' \<Rightarrow> (Some e, st')
      | Continue st' \<Rightarrow> while_loop rb target maxit ev st') = (ex, st')"
      using "1.prems" by (simp add: while_loop_step)
    show ?thesis
    proof (cases "loop_body rb target ev st")
      case (Break x)
      then have "length (chat_calls x) = length (chat_calls st) + 1"
        by (auto simp: loop_body_def handler_def Let_def
              split: sum.splits option.splits if_splits prod.splits)
      then show ?thesis using w Break True by auto
    next
      case (Propagate e x)
      then have "length (chat_calls x) = length (chat_calls st) + 1"
        by (auto simp: loop_body_def handler_def Let_def
              split: sum.splits option.splits if_splits prod.splits)
      then show ?thesis using w Propagate True by auto
    next
      case (Continue x)
      then have "length (chat_calls x) = length (chat_calls st) + 1 \<and> cur_iteration x = cur_iteration st + 1"
        by (auto simp: loop_body_def handler_def Let_def
              split: sum.splits option.splits if_splits prod.splits)
      moreover have "length (chat_calls st') \<le> length (chat_calls x) + (Suc maxit - cur_iteration x)"
        using "1.IH" [OF True Continue] w Continue by simp
      ultimately show ?thesis using True by linarith
    qed
  qed
qed

lemma main_replies:
  assumes "0 < target"
  shows "\<exists>st. main rb target maxit (replies_env f) = (st, Inr (make_summary target st)) \<and>
     length (all_iterations st) = length (chat_calls st) \<and>
     length (chat_calls st) \<le> maxit \<and>
     (\<forall>m. 1 \<le> m \<and> m \<le> maxit \<and> target \<le> pass_total rb (f m) \<and>
          (\<forall>n. 1 \<le> n \<and> n < m \<longrightarrow> pass_total rb (f n) < target)
        \<longrightarrow> target \<le> overall st \<and> length (chat_calls st) = m \<and> cur_iteration st = m) \<and>
     ((\<forall>n. 1 \<le> n \<and> n \<le> maxit \<longrightarrow> pass_total rb (f n) < target)
        \<longrightarrow> overall st < target \<and> length (chat_calls st) = maxit \<and> cur_iteration st = maxit + 1)"
proof -
  have "\<exists>st'. while_loop rb target maxit (replies_env f) initial_state = (None, st') \<and>
     length (all_iterations st') = length (chat_calls st') \<and>
     (\<forall>m. cur_iteration initial_state \<le> m \<and> m \<le> maxit \<and> target \<le> pass_total rb (f m) \<and>
          (\<forall>n. cur_iteration initial_state \<le> n \<and> n < m \<longrightarrow> pass_total rb (f n) < target)
        \<longrightarrow> target \<le> overall st' \<and> length (chat_calls st') = m \<and> cur_iteration st' = m) \<and>
     ((\<forall>n. cur_iteration initial_state \<le> n \<and> n \<le> maxit \<longrightarrow> pass_total rb (f n) < target)
        \<longrightarrow> overall st' < target \<and> length (chat_calls st') = maxit \<and> cur_iteration st' = maxit + 1)"
    using assms by (intro replies_run) (simp_all add: initial_state_def)
  then obtain st' where w: "while_loop rb target maxit (replies_env f) initial_state = (None, st')"
    and rest: "length (all_iterations st') = length (chat_calls st')"
     "\<forall>m. 1 \<le> m \<and> m \<le> maxit \<and> target \<le> pass_total rb (f m) \<and>
          (\<forall>n. 1 \<le> n \<and> n < m \<longrightarrow> pass_total rb (f n) < target)
        \<longrightarrow> target \<le> overall st' \<and> length (chat_calls st') = m \<and> cur_iteration st' = m"
     "(\<forall>n. 1 \<le> n \<and> n \<le> maxit \<longrightarrow> pass_total rb (f n) < target)
        \<longrightarrow> overall st' < target \<and> length (chat_calls st') = maxit \<and> cur_iteration st' = maxit + 1"
    by (auto simp: initial_state_def)
  have "length (chat_calls st') \<le> maxit"
    using calls_bound [OF w] by (simp add: initial_state_def)
  then show ?thesis using w rest by (simp add: main_def)
qed



lemma pass_total_40: "pass_total rubric_AB (total_reply ''40'') = 40"
  by code_simp
lemma pass_total_70: "pass_total rubric_AB (total_reply ''70'') = 70"
  by code_simp
lemma pass_total_96: "pass_total rubric_AB (total_reply ''96'') = 96"
  by code_simp

lemma below_3: "1 \<le> n \<and> n < (3::nat) \<longleftrightarrow> n = 1 \<or> n = 2"
  by auto
lemma upto_2: "1 \<le> n \<and> n \<le> (2::nat) \<longleftrightarrow> n = 1 \<or> n = 2"
  by auto

lemma run_prefix:
  assumes "\<forall>j. cur_iteration st \<le> j \<and> j < n \<longrightarrow>
             write_iteration ev j = None \<and> (\<exists>r. chat ev j = Inr r \<and> pass_total rb r < target)"
    and "cur_iteration st \<le> n" and "n \<le> maxit + 1" and "overall st < target"
  shows "\<exists>st1. while_loop rb target maxit ev st = while_loop rb target maxit ev st1 \<and>
     cur_iteration st1 = n \<and> overall st1 < target \<and>
     map iteration (all_iterations st1) = map iteration (all_iterations st) @ [cur_iteration st..<n] \<and>
     saved_files st1 = saved_files st @ [cur_iteration st..<n] \<and>
     length (chat_calls st1) = length (chat_calls st) + (n - cur_iteration st)"
  using assms
proof (induction "n - cur_iteration st" arbitrary: st)
  case 0
  then have "cur_iteration st = n" by simp
  then show ?case using "0.prems" by (intro exI [of _ st]) simp
next
  case (Suc k)
  let ?i = "cur_iteration st"
  have lt: "?i < n" using Suc.hyps(2) by simp
  then obtain r where wr: "write_iteration ev ?i = None" and ch: "chat ev ?i = Inr r"
    and low: "pass_total rb r < target"
    using Suc.prems(1) by auto
  obtain rec pr where it: "iteration rec = ?i" and body: "loop_body rb target ev st =
       (let st2 = st\<lparr>chat_calls := chat_calls st @ [cur_prompt st], overall := pass_total rb r,
                      all_iterations := all_iterations st @ [rec],
                      saved_files := saved_files st @ [?i]\<rparr>
        in if pass_total rb r \<ge> target then Break st2
           else Continue (st2\<lparr>cur_prompt := pr, cur_iteration := ?i + 1\<rparr>))"
    using loop_body_success [OF ch wr] by blast
  let ?st3 = "st\<lparr>chat_calls := chat_calls st @ [cur_prompt st], overall := pass_total rb r,
                      all_iterations := all_iterations st @ [rec],
                      saved_files := saved_files st @ [?i],
                      cur_prompt := pr, cur_iteration := ?i + 1\<rparr>"
  have lb: "loop_body rb target ev st = Continue ?st3"
    using body low by (simp add: Let_def)
  have w: "while_loop rb target maxit ev st = while_loop rb target maxit ev ?st3"
    using lt Suc.prems(3,4) lb by (simp add: while_loop_step)
  have "\<exists>st1. while_loop rb target maxit ev ?st3 = while_loop rb target maxit ev st1 \<and>
     cur_iteration st1 = n \<and> overall st1 < target \<and>
     map iteration (all_iterations st1) = map iteration (all_iterations ?st3) @ [cur_iteration ?st3..<n] \<and>
     saved_files st1 = saved_files ?st3 @ [cur_iteration ?st3..<n] \<and>
     length (chat_calls st1) = length (chat_calls ?st3) + (n - cur_iteration ?st3)"
    using Suc.hyps(2) Suc.prems lt low
    by (intro Suc.hyps(1)) auto
  then obtain st1 where st1: "while_loop rb target maxit ev ?st3 = while_loop rb target maxit ev st1"
     "cur_iteration st1 = n" "overall st1 < target"
     "map iteration (all_iterations st1) = map iteration (all_iterations st) @ [?i] @ [?i + 1..<n]"
     "saved_files st1 = saved_files st @ [?i] @ [?i + 1..<n]"
     "length (chat_calls st1) = length (chat_calls st) + 1 + (n - (?i + 1))"
    using it by auto
  have up: "[?i] @ [?i + 1..<n] = [?i..<n]"
    using lt by (simp add: upt_conv_Cons)
  show ?case
    apply (rule exI [of _ st1])
    using st1 w lt unfolding up [symmetric] by simp
qed

lemma replies_3:
  "pass_total rubric_AB (nth_reply [total_reply ''40'', total_reply ''70'', total_reply ''96''] 1) = 40"
  "pass_total rubric_AB (nth_reply [total_reply ''40'', total_reply ''70'', total_reply ''96''] 2) = 70"
  "pass_total rubric_AB (nth_reply [total_reply ''40'', total_reply ''70'', total_reply ''96''] 3) = 96"
  by (simp_all add: nth_reply_def pass_total_40 pass_total_70 pass_total_96)

lemma replies_2:
  "pass_total rubric_AB (nth_reply [total_reply ''40'', total_reply ''70''] 1) = 40"
  "pass_total rubric_AB (nth_reply [total_reply ''40'', total_reply ''70''] 2) = 70"
  by (simp_all add: nth_reply_def pass_total_40 pass_total_70)

lemma reach_pass:
  assumes "0 < target" and "1 \<le> n" and "n \<le> maxit"
    and "\<forall>j. 1 \<le> j \<and> j < n \<longrightarrow>
           write_iteration ev j = None \<and> (\<exists>r. chat ev j = Inr r \<and> pass_total rb r < target)"
  shows "\<exists>st1. while_loop rb target maxit ev initial_state = while_loop rb target maxit ev st1 \<and>
     cur_iteration st1 = n \<and> overall st1 < target \<and>
     map iteration (all_iterations st1) = [1..<n] \<and>
     saved_files st1 = [1..<n] \<and> length (chat_calls st1) = n - 1"
  using run_prefix [of initial_state n ev rb target maxit] assms
  by (simp add: initial_state_def)

lemma chat_raises_at:
  assumes "0 < target" and "1 \<le> n" and "n \<le> maxit"
    and "\<forall>j. 1 \<le> j \<and> j < n \<longrightarrow>
           write_iteration ev j = None \<and> (\<exists>r. chat ev j = Inr r \<and> pass_total rb r < target)"
    and "chat ev n = Inl e"
  shows "\<exists>st. main rb target maxit ev =
             (st, if is_Exception e then Inr (make_summary target st) else Inl e) \<and>
     map iteration (all_iterations st) = [1..<n] \<and> length (chat_calls st) = n"
proof -
  obtain st1 where w: "while_loop rb target maxit ev initial_state = while_loop rb target maxit ev st1"
    and st1: "cur_iteration st1 = n" "overall st1 < target"
      "map iteration (all_iterations st1) = [1..<n]" "length (chat_calls st1) = n - 1"
    using reach_pass [OF assms(1-4)] by blast
  let ?st = "st1\<lparr>chat_calls := chat_calls st1 @ [cur_prompt st1]\<rparr>"
  have lb: "loop_body rb target ev st1 = handler e ?st"
    using assms(5) st1(1) by (simp add: loop_body_chat_fails)
  have "while_loop rb target maxit ev st1 = (if is_Exception e then (None, ?st) else (Some e, ?st))"
    using st1 assms(3) lb by (simp add: while_loop_step handler_def)
  then have "main rb target maxit ev =
             (?st, if is_Exception e then Inr (make_summary target ?st) else Inl e)"
    using w by (simp add: main_def)
  then show ?thesis
    using st1 assms(2) by (intro exI [of _ ?st]) simp
qed

lemma write_raises_at:
  assumes "0 < target" and "1 \<le> n" and "n \<le> maxit"
    and "\<forall>j. 1 \<le> j \<and> j < n \<longrightarrow>
           write_iteration ev j = None \<and> (\<exists>r. chat ev j = Inr r \<and> pass_total rb r < target)"
    and "chat ev n = Inr r" and "write_iteration ev n = Some e"
  shows "\<exists>st. main rb target maxit ev =
             (st, if is_Exception e then Inr (make_summary target st) else Inl e) \<and>
     map iteration (all_iterations st) = [1..<Suc n] \<and> script (last (all_iterations st)) = r \<and>
     saved_files st = [1..<n] \<and> length (chat_calls st) = n"
proof -
  obtain st1 where w: "while_loop rb target maxit ev initial_state = while_loop rb target maxit ev st1"
    and st1: "cur_iteration st1 = n" "overall st1 < target"
      "map iteration (all_iterations st1) = [1..<n]" "saved_files st1 = [1..<n]"
      "length (chat_calls st1) = n - 1"
    using reach_pass [OF assms(1-4)] by blast
  obtain rec where rec: "iteration rec = n" "script rec = r"
    and lb: "loop_body rb target ev st1 =
       handler e (st1\<lparr>chat_calls := chat_calls st1 @ [cur_prompt st1], overall := pass_total rb r,
                      all_iterations := all_iterations st1 @ [rec]\<rparr>)"
    using loop_body_write_fails [of ev st1 r e rb target] assms(5,6) st1(1) by auto
  let ?st = "st1\<lparr>chat_calls := chat_calls st1 @ [cur_prompt st1], overall := pass_total rb r,
                      all_iterations := all_iterations st1 @ [rec]\<rparr>"
  have "while_loop rb target maxit ev st1 = (if is_Exception e then (None, ?st) else (Some e, ?st))"
    using st1 assms(3) lb by (simp add: while_loop_step handler_def)
  then have "main rb target maxit ev =
             (?st, if is_Exception e then Inr (make_summary target ?st) else Inl e)"
    using w by (simp add: main_def)
  then show ?thesis
    using st1 assms(2) rec by (intro exI [of _ ?st]) simp
qed

lemma pass_total_40': "pass_total rubric_AB ''WEIGHTED TOTAL: 40'' = 40"
  using pass_total_40 by (simp add: total_reply_def)

lemma below_2: "1 \<le> j \<and> j < (2::nat) \<longleftrightarrow> j = 1"
  by auto

section \<open>The sample replies, evaluated\<close>

lemma distinct_AB: "distinct (map fst rubric_AB)"
  by (simp add: rubric_AB_def)

lemma keys_AB: "map fst rubric_AB = [''A'', ''B'']"
  by (simp add: rubric_AB_def)





lemma eval_out_of_range:
  "first_match (colon_rx ''A'') reply_out_of_range = Some 101"
  "first_match (colon_rx ''B'') reply_out_of_range = Some 100"
  "first_match (colon_rx ''A'') ''A: 0'' = Some 0"
  "first_match (colon_rx ''A'') ''A: -5'' = None"
  "score_text reply_out_of_range = Inr reply_out_of_range"
  "zero_filled [''A'', ''B''] reply_out_of_range ''A'' = Some 50"
  "zero_filled [''A'', ''B''] reply_out_of_range ''B'' = Some 100"
  by code_simp+

lemma eval_prose:
  "\<forall>k \<in> set (map fst rubric_AB). \<forall>p \<in> set (rules k). search p reply_prose = None"
  "\<forall>p \<in> set total_patterns. search p reply_prose = None"
  by code_simp+

section \<open>The claims about the loop\<close>

text \<open>
  C2. For a fixed sequence of replies \<open>f\<close> (every completion call and every write succeeds)
  and a positive target, the loop makes at most \<open>max_iterations\<close> passes and writes its
  summary. If some pass \<open>m\<close> within the cap is the first whose extracted weighted total
  reaches the target, the run ends after exactly \<open>m\<close> passes with the achieved flag set
  (TARGET_REACHED); if no pass within the cap reaches it, the run ends after exactly
  \<open>max_iterations\<close> passes with the flag unset (MAX_ITERATIONS_EXHAUSTED).
\<close>

theorem main_stops_within_cap:
  assumes "0 < target"
  shows "\<exists>st sm. main rb target maxit (replies_env f) = (st, Inr sm) \<and>
     length (chat_calls st) \<le> maxit \<and>
     (\<forall>m. 1 \<le> m \<and> m \<le> maxit \<and> target \<le> pass_total rb (f m) \<and>
          (\<forall>n. 1 \<le> n \<and> n < m \<longrightarrow> pass_total rb (f n) < target)
        \<longrightarrow> achieved_target sm \<and> length (chat_calls st) = m) \<and>
     ((\<forall>n. 1 \<le> n \<and> n \<le> maxit \<longrightarrow> pass_total rb (f n) < target)
        \<longrightarrow> \<not> achieved_target sm \<and> length (chat_calls st) = maxit)"
proof -
  obtain st where st: "main rb target maxit (replies_env f) = (st, Inr (make_summary target st))"
     "length (chat_calls st) \<le> maxit"
     "\<forall>m. 1 \<le> m \<and> m \<le> maxit \<and> target \<le> pass_total rb (f m) \<and>
          (\<forall>n. 1 \<le> n \<and> n < m \<longrightarrow> pass_total rb (f n) < target)
        \<longrightarrow> target \<le> overall st \<and> length (chat_calls st) = m \<and> cur_iteration st = m"
     "(\<forall>n. 1 \<le> n \<and> n \<le> maxit \<longrightarrow> pass_total rb (f n) < target)
        \<longrightarrow> overall st < target \<and> length (chat_calls st) = maxit \<and> cur_iteration st = maxit + 1"
    using main_replies [OF assms, of rb maxit f] by blast
  show ?thesis
    apply (rule exI [of _ st], rule exI [of _ "make_summary target st"])
    using st by (auto simp: make_summary_def)
qed

text \<open>
  The two scenarios of the specification: target 96 with totals 40, 70, 96 and a cap of
  three passes, and totals 40, 70 with a cap of two.
\<close>

theorem main_stops_within_cap_witness:
  "(0::real) < 96 \<and>
   (\<exists>st sm. main rubric_AB 96 3
        (replies_env (nth_reply [total_reply ''40'', total_reply ''70'', total_reply ''96''])) = (st, Inr sm) \<and>
      achieved_target sm \<and> length (chat_calls st) = 3) \<and>
   (\<exists>st sm. main rubric_AB 96 2
        (replies_env (nth_reply [total_reply ''40'', total_reply ''70''])) = (st, Inr sm) \<and>
      \<not> achieved_target sm \<and> length (chat_calls st) = 2)"
proof -
  have pos: "(0::real) < 96" by simp
  let ?f = "nth_reply [total_reply ''40'', total_reply ''70'', total_reply ''96'']"
  let ?g = "nth_reply [total_reply ''40'', total_reply ''70'']"
  obtain st sm where a: "main rubric_AB 96 3 (replies_env ?f) = (st, Inr sm)"
    and a3: "\<forall>m. 1 \<le> m \<and> m \<le> 3 \<and> 96 \<le> pass_total rubric_AB (?f m) \<and>
          (\<forall>n. 1 \<le> n \<and> n < m \<longrightarrow> pass_total rubric_AB (?f n) < 96)
        \<longrightarrow> achieved_target sm \<and> length (chat_calls st) = m"
    using main_stops_within_cap [OF pos, of rubric_AB 3 ?f] by blast
  have "\<forall>n. 1 \<le> n \<and> n < (3::nat) \<longrightarrow> pass_total rubric_AB (?f n) < 96"
    unfolding below_3 using replies_3 by auto
  then have "achieved_target sm \<and> length (chat_calls st) = 3"
    using a3 [rule_format, of 3] replies_3 by simp
  with a have A: "\<exists>st sm. main rubric_AB 96 3 (replies_env ?f) = (st, Inr sm) \<and>
      achieved_target sm \<and> length (chat_calls st) = 3" by blast
  obtain st' sm' where b: "main rubric_AB 96 2 (replies_env ?g) = (st', Inr sm')"
    and b2: "(\<forall>n. 1 \<le> n \<and> n \<le> 2 \<longrightarrow> pass_total rubric_AB (?g n) < 96)
        \<longrightarrow> \<not> achieved_target sm' \<and> length (chat_calls st') = 2"
    using main_stops_within_cap [OF pos, of rubric_AB 2 ?g] by blast
  have "\<forall>n. 1 \<le> n \<and> n \<le> (2::nat) \<longrightarrow> pass_total rubric_AB (?g n) < 96"
    unfolding upto_2 using replies_2 by auto
  then have "\<not> achieved_target sm' \<and> length (chat_calls st') = 2"
    using b2 by blast
  with b have B: "\<exists>st sm. main rubric_AB 96 2 (replies_env ?g) = (st, Inr sm) \<and>
      \<not> achieved_target sm \<and> length (chat_calls st) = 2" by blast
  show ?thesis using pos A B by blast
qed

text \<open>
  C9. The iteration count of the summary is \<open>iteration - 1\<close>. In the scenario with target 96,
  a cap of three passes and the totals 40, 70, 96 the loop leaves by \<open>break\<close> in pass 3
  without incrementing the counter: the summary holds three iteration records, the
  achieved flag is set, and the iteration count it reports is 2.
\<close>

theorem summary_count_after_target:
  "\<exists>st sm. main rubric_AB 96 3
        (replies_env (nth_reply [total_reply ''40'', total_reply ''70'', total_reply ''96''])) = (st, Inr sm) \<and>
      achieved_target sm \<and> length (iterations sm) = 3 \<and> total_iterations sm = 2"
proof -
  let ?f = "nth_reply [total_reply ''40'', total_reply ''70'', total_reply ''96'']"
  obtain st where st: "main rubric_AB 96 3 (replies_env ?f) = (st, Inr (make_summary 96 st))"
    and len: "length (all_iterations st) = length (chat_calls st)"
    and a3: "\<forall>m. 1 \<le> m \<and> m \<le> 3 \<and> 96 \<le> pass_total rubric_AB (?f m) \<and>
          (\<forall>n. 1 \<le> n \<and> n < m \<longrightarrow> pass_total rubric_AB (?f n) < 96)
        \<longrightarrow> 96 \<le> overall st \<and> length (chat_calls st) = m \<and> cur_iteration st = m"
    using main_replies [of 96 rubric_AB 3 ?f] by auto
  have "\<forall>n. 1 \<le> n \<and> n < (3::nat) \<longrightarrow> pass_total rubric_AB (?f n) < 96"
    unfolding below_3 using replies_3 by auto
  then have "96 \<le> overall st \<and> length (chat_calls st) = 3 \<and> cur_iteration st = 3"
    using a3 [rule_format, of 3] replies_3 by simp
  then show ?thesis
    using st len by (intro exI [of _ st] exI [of _ "make_summary 96 st"]) (simp add: make_summary_def)
qed



text \<open>
  C8, as the code has it. Suppose the passes before pass \<open>n\<close> succeeded below the target
  and the completion call of pass \<open>n\<close> raises \<open>e\<close>. Then no record is appended for pass
  \<open>n\<close> (the history holds the records of the passes 1 to \<open>n - 1\<close>) and no further call is
  made (pass \<open>n\<close> is the last of \<open>n\<close> calls). If \<open>e\<close> is caught by \<open>except Exception\<close>, the
  summary is written with that history; a \<open>KeyboardInterrupt\<close> is not caught, it leaves
  \<open>main\<close> and no summary is written.
\<close>

theorem completion_failure_ends_run:
  assumes "0 < target" and "1 \<le> n" and "n \<le> maxit"
    and "\<forall>j. 1 \<le> j \<and> j < n \<longrightarrow>
           write_iteration ev j = None \<and> (\<exists>r. chat ev j = Inr r \<and> pass_total rb r < target)"
    and "chat ev n = Inl e"
  shows "\<exists>st. main rb target maxit ev =
             (st, if is_Exception e then Inr (make_summary target st) else Inl e) \<and>
     iterations (make_summary target st) = all_iterations st \<and>
     map iteration (all_iterations st) = [1..<n] \<and> length (chat_calls st) = n"
  using chat_raises_at [OF assms] by (auto simp: make_summary_def)

text \<open>Pass 1 returns a total of 40, the call of pass 2 fails with an API error.\<close>

theorem completion_failure_ends_run_witness:
  "(0::real) < 96 \<and> (1::nat) \<le> 2 \<and> (2::nat) \<le> 15 \<and>
   write_iteration api_failure_env 1 = None \<and>
   (\<exists>r. chat api_failure_env 1 = Inr r \<and> pass_total rubric_AB r < 96) \<and>
   chat api_failure_env 2 = Inl APIError \<and>
   (\<exists>st. main rubric_AB 96 15 api_failure_env = (st, Inr (make_summary 96 st)) \<and>
      map iteration (iterations (make_summary 96 st)) = [1] \<and> length (chat_calls st) = 2)"
proof -
  have h: "\<forall>j. 1 \<le> j \<and> j < 2 \<longrightarrow> write_iteration api_failure_env j = None \<and>
        (\<exists>r. chat api_failure_env j = Inr r \<and> pass_total rubric_AB r < 96)"
    by (simp add: below_2 api_failure_env_def scripted_env_def pass_total_40')
  have c: "chat api_failure_env 2 = Inl APIError"
    by (simp add: api_failure_env_def scripted_env_def)
  have "\<exists>st. main rubric_AB 96 15 api_failure_env =
             (st, if is_Exception APIError then Inr (make_summary 96 st) else Inl APIError) \<and>
     iterations (make_summary 96 st) = all_iterations st \<and>
     map iteration (all_iterations st) = [1..<2] \<and> length (chat_calls st) = 2"
    using completion_failure_ends_run [of 96 2 15 api_failure_env rubric_AB APIError] h c by simp
  then have "\<exists>st. main rubric_AB 96 15 api_failure_env = (st, Inr (make_summary 96 st)) \<and>
      map iteration (iterations (make_summary 96 st)) = [1] \<and> length (chat_calls st) = 2"
    by (auto simp: is_Exception_def numeral_2_eq_2)
  then show ?thesis using h c by simp
qed

text \<open>
  C8, as the specification states it, fails for the keyboard interrupt: with pass 1
  answered and pass 2 interrupted, \<open>main\<close> ends with the exception and writes no summary,
  although one record was accumulated.
\<close>

theorem keyboard_interrupt_writes_no_summary:
  "\<exists>st. main rubric_AB 96 15 interrupted_env = (st, Inl KeyboardInterrupt) \<and>
        map iteration (all_iterations st) = [1]"
proof -
  have "\<exists>st. main rubric_AB 96 15 interrupted_env =
             (st, if is_Exception KeyboardInterrupt then Inr (make_summary 96 st) else Inl KeyboardInterrupt) \<and>
     map iteration (all_iterations st) = [1..<2] \<and> length (chat_calls st) = 2"
    by (rule chat_raises_at)
       (simp_all add: below_2 interrupted_env_def scripted_env_def pass_total_40')
  then show ?thesis by (auto simp: is_Exception_def numeral_2_eq_2)
qed


text \<open>
  C10. Suppose the passes before pass \<open>n\<close> succeeded below the target, the completion call
  of pass \<open>n\<close> returns \<open>r\<close>, and writing \<open>iteration_n.json\<close> raises an exception that
  \<open>except Exception\<close> catches. Then the loop stops after \<open>n\<close> calls and the summary is
  written; its list of iterations ends with the record of pass \<open>n\<close>, which holds \<open>r\<close>,
  while the file of pass \<open>n\<close> is not among the files written.
\<close>

theorem write_failure_keeps_record:
  assumes "0 < target" and "1 \<le> n" and "n \<le> maxit"
    and "\<forall>j. 1 \<le> j \<and> j < n \<longrightarrow>
           write_iteration ev j = None \<and> (\<exists>r. chat ev j = Inr r \<and> pass_total rb r < target)"
    and "chat ev n = Inr r" and "write_iteration ev n = Some e" and "is_Exception e"
  shows "\<exists>st sm. main rb target maxit ev = (st, Inr sm) \<and>
     map iteration (iterations sm) = [1..<Suc n] \<and> script (last (iterations sm)) = r \<and>
     n \<notin> set (saved_files st) \<and> length (chat_calls st) = n"
proof -
  obtain st where "main rb target maxit ev =
             (st, if is_Exception e then Inr (make_summary target st) else Inl e)"
     "map iteration (all_iterations st) = [1..<Suc n]" "script (last (all_iterations st)) = r"
     "saved_files st = [1..<n]" "length (chat_calls st) = n"
    using write_raises_at [OF assms(1-6)] by blast
  then show ?thesis
    using assms(7)
    by (intro exI [of _ st] exI [of _ "make_summary target st"]) (simp add: make_summary_def)
qed

text \<open>Every pass returns a total of 40; writing the file of pass 2 fails.\<close>

theorem write_failure_keeps_record_witness:
  "(0::real) < 96 \<and> (1::nat) \<le> 2 \<and> (2::nat) \<le> 15 \<and>
   write_iteration write_failure_env 1 = None \<and>
   (\<exists>r. chat write_failure_env 1 = Inr r \<and> pass_total rubric_AB r < 96) \<and>
   chat write_failure_env 2 = Inr ''WEIGHTED TOTAL: 40'' \<and>
   write_iteration write_failure_env 2 = Some OSError \<and> is_Exception OSError \<and>
   (\<exists>st sm. main rubric_AB 96 15 write_failure_env = (st, Inr sm) \<and>
      map iteration (iterations sm) = [1, 2] \<and> 2 \<notin> set (saved_files st) \<and>
      length (chat_calls st) = 2)"
proof -
  have h: "\<forall>j. 1 \<le> j \<and> j < 2 \<longrightarrow> write_iteration write_failure_env j = None \<and>
        (\<exists>r. chat write_failure_env j = Inr r \<and> pass_total rubric_AB r < 96)"
    by (simp add: below_2 write_failure_env_def scripted_env_def pass_total_40')
  have c: "chat write_failure_env 2 = Inr ''WEIGHTED TOTAL: 40''"
     "write_iteration write_failure_env 2 = Some OSError" "is_Exception OSError"
    by (simp_all add: write_failure_env_def scripted_env_def is_Exception_def)
  have "\<exists>st sm. main rubric_AB 96 15 write_failure_env = (st, Inr sm) \<and>
     map iteration (iterations sm) = [1..<Suc 2] \<and>
     script (last (iterations sm)) = ''WEIGHTED TOTAL: 40'' \<and>
     2 \<notin> set (saved_files st) \<and> length (chat_calls st) = 2"
    using write_failure_keeps_record [of 96 2 15 write_failure_env rubric_AB
        "''WEIGHTED TOTAL: 40''" OSError] h c by simp
  moreover have "[1..<Suc 2] = [1, 2::nat]" by (simp add: upt_conv_Cons)
  ultimately have "\<exists>st sm. main rubric_AB 96 15 write_failure_env = (st, Inr sm) \<and>
      map iteration (iterations sm) = [1, 2] \<and> 2 \<notin> set (saved_files st) \<and>
      length (chat_calls st) = 2"
    by auto
  then show ?thesis using h c by simp
qed



section \<open>The claims about the extraction\<close>




text \<open>
  C4. The loop over the total patterns assigns the number to \<open>total\<close> before it checks the
  range, and a number outside the range is not taken back: a reported total of 150 is the
  total that is returned, with every category found and with none found.
\<close>

theorem out_of_range_total_is_returned:
  "first_match (colon_rx ''WEIGHTED TOTAL'') reply_total_150 = Some 150 \<and>
   extract_scores rubric_AB reply_total_150 = Inr ([(''A'', 80), (''B'', 70)], 150) \<and>
   extract_scores rubric_AB ''WEIGHTED TOTAL: 150'' = Inr ([(''A'', 0), (''B'', 0)], 150)"
  by code_simp



text \<open>
  C6. In the loop over the patterns, a first match whose number lies in the closed range
  from 0 to 100 is stored and ends the loop; a first match whose number lies outside is
  passed over exactly as a pattern that does not match, and the loop goes on with the
  remaining patterns. The mapping that is returned gives every category the first number
  in the range among all variants and patterns in their order, and 0 if there is none.
\<close>

theorem category_value_rule:
  assumes "distinct (map fst rb)"
  shows "(first_match p body = Some v \<and> 0 \<le> v \<and> v \<le> 100 \<longrightarrow>
            for_patterns key (p # ps) body sc = Inr (AList.update key v sc)) \<and>
         (first_match p body = Some v \<and> \<not> (0 \<le> v \<and> v \<le> 100) \<longrightarrow>
            for_patterns key (p # ps) body sc = for_patterns key ps body sc) \<and>
         (search p body = None \<longrightarrow>
            for_patterns key (p # ps) body sc = for_patterns key ps body sc) \<and>
         (\<exists>bd sc' tot. score_text r = Inr bd \<and> extract_scores rb r = Inr (sc', tot) \<and>
            map_of sc' = zero_filled (map fst rb) bd)"
proof -
  have 1: "first_match p body = Some v \<and> 0 \<le> v \<and> v \<le> 100 \<longrightarrow>
            for_patterns key (p # ps) body sc = Inr (AList.update key v sc)"
    by (auto simp: first_match_def split: option.splits)
  have 2: "first_match p body = Some v \<and> \<not> (0 \<le> v \<and> v \<le> 100) \<longrightarrow>
            for_patterns key (p # ps) body sc = for_patterns key ps body sc"
    by (auto simp: first_match_def split: option.splits)
  have 3: "search p body = None \<longrightarrow>
            for_patterns key (p # ps) body sc = for_patterns key ps body sc"
    by simp
  have 4: "\<exists>bd sc' tot. score_text r = Inr bd \<and> extract_scores rb r = Inr (sc', tot) \<and>
            map_of sc' = zero_filled (map fst rb) bd"
    using extract_scores_rule [OF assms, of r] by blast
  show ?thesis using 1 2 3 4 by blast
qed

text \<open>
  100 and 0 are stored; 101 is passed over and the search goes on to \<open>A = 50\<close>. A negative
  number is never matched, since no pattern reads a sign: \<open>A: -5\<close> matches nothing.
\<close>

theorem category_value_rule_witness:
  "distinct (map fst rubric_AB) \<and>
   first_match (colon_rx ''B'') reply_out_of_range = Some 100 \<and>
   for_patterns ''B'' [colon_rx ''B''] reply_out_of_range [] = Inr [(''B'', 100)] \<and>
   first_match (colon_rx ''A'') ''A: 0'' = Some 0 \<and>
   for_patterns ''A'' [colon_rx ''A''] ''A: 0'' [] = Inr [(''A'', 0)] \<and>
   first_match (colon_rx ''A'') reply_out_of_range = Some 101 \<and>
   for_patterns ''A'' [colon_rx ''A'', sep_rx ''='' ''A''] reply_out_of_range [] =
     for_patterns ''A'' [sep_rx ''='' ''A''] reply_out_of_range [] \<and>
   search (colon_rx ''A'') ''A: -5'' = None \<and>
   (\<exists>sc tot. extract_scores rubric_AB reply_out_of_range = Inr (sc, tot) \<and>
      map_of sc ''A'' = Some 50 \<and> map_of sc ''B'' = Some 100)"
proof -
  note rule = category_value_rule [OF distinct_AB]
  have B: "for_patterns ''B'' [colon_rx ''B''] reply_out_of_range [] = Inr [(''B'', 100)]"
    using rule [of "colon_rx ''B''" reply_out_of_range 100 "''B''" "[]" "[]"] eval_out_of_range(2)
    by simp
  have Z: "for_patterns ''A'' [colon_rx ''A''] ''A: 0'' [] = Inr [(''A'', 0)]"
    using rule [of "colon_rx ''A''" "''A: 0''" 0 "''A''" "[]" "[]"] eval_out_of_range(3)
    by simp
  have A: "for_patterns ''A'' [colon_rx ''A'', sep_rx ''='' ''A''] reply_out_of_range [] =
     for_patterns ''A'' [sep_rx ''='' ''A''] reply_out_of_range []"
    using rule [of "colon_rx ''A''" reply_out_of_range 101 "''A''" "[sep_rx ''='' ''A'']" "[]"]
      eval_out_of_range(1)
    by simp
  have N: "search (colon_rx ''A'') ''A: -5'' = None"
    by code_simp
  obtain bd sc tot where t: "score_text reply_out_of_range = Inr bd"
    and e: "extract_scores rubric_AB reply_out_of_range = Inr (sc, tot)"
    and m: "map_of sc = zero_filled (map fst rubric_AB) bd"
    using rule [of "colon_rx ''A''" "[]" 0 "''A''" "[]" "[]" reply_out_of_range] by blast
  have "bd = reply_out_of_range" using t eval_out_of_range(5) by simp
  then have "map_of sc ''A'' = Some 50 \<and> map_of sc ''B'' = Some 100"
    using m eval_out_of_range(6,7) by (simp add: keys_AB)
  then show ?thesis using distinct_AB B Z A N e eval_out_of_range(1,2,3) by blast
qed

text \<open>
  C7. \<open>extract_scores\<close> returns a mapping and a total for every rubric and every text: no
  exception leaves it. If no pattern of any category and no total pattern matches
  anywhere in the text, every category of the rubric is 0 and the total is 0.
\<close>

theorem extraction_is_lenient:
  "(\<exists>sc tot. extract_scores rb r = Inr (sc, tot)) \<and>
   ((\<forall>k \<in> set (map fst rb). \<forall>p \<in> set (rules k). search p r = None) \<and>
    (\<forall>p \<in> set total_patterns. search p r = None) \<longrightarrow>
    (\<exists>sc. extract_scores rb r = Inr (sc, 0) \<and>
       map_of sc = (\<lambda>k. if k \<in> set (map fst rb) then Some 0 else None)))"
  using extract_scores_total [of rb r] extract_scores_nomatch [of rb r] map_of_fill_empty
  by auto

text \<open>A reply of plain prose.\<close>

theorem extraction_is_lenient_witness:
  "\<exists>sc. extract_scores rubric_AB reply_prose = Inr (sc, 0) \<and>
      map_of sc ''A'' = Some 0 \<and> map_of sc ''B'' = Some 0"
proof -
  obtain sc where "extract_scores rubric_AB reply_prose = Inr (sc, 0)"
    and "map_of sc = (\<lambda>k. if k \<in> set (map fst rubric_AB) then Some 0 else None)"
    using extraction_is_lenient [of rubric_AB reply_prose] eval_prose by blast
  then show ?thesis by (auto simp: keys_AB)
qed

end
